theory Spec2Isabelle
  imports Main "HOL-Library.Word" "HOL-Library.AList"
begin

section \<open>Strings and values\<close>

text \<open>
  A JavaScript string is a sequence of UTF-16 code units, and \<open>.length\<close> counts code
  units. String literals of the source are written through \<open>js\<close>, which maps an ASCII
  literal to its code units.
\<close>

type_synonym jschar = "16 word"
type_synonym jsstring = "jschar list"

definition js :: "string \<Rightarrow> jsstring" where
  "js s = map of_char s"

text \<open>The placeholder appended by \<open>convertTokenToAnnotation\<close>: the code unit U+FFFC.\<close>

definition placeholder :: jschar where
  "placeholder = 0xFFFC"

text \<open>
  Attribute values: the strings of \<open>token.attrs\<close>, the boolean pushed for \<open>tight\<close>, and
  the number (or NaN) that \<open>parseInt\<close> returns for \<open>level\<close>.
\<close>

datatype attr_value = AStr jsstring | ABool bool | ANum int | ANaN

text \<open>The only exception the converter can raise is the runtime's \<open>TypeError\<close>.\<close>

datatype error = TypeError

section \<open>Tokens, nodes, annotations\<close>

text \<open>
  The fields of a \<open>MarkdownIt.Token\<close> that the converter reads. \<open>attrs\<close> and \<open>children\<close>
  may be \<open>null\<close>. Tokens are values here: the token objects of one input are taken to be
  pairwise distinct, as a tokenizer produces them.
\<close>

datatype token = Token
  (ttype: jsstring)
  (tag: jsstring)
  (attrs: "(jsstring \<times> attr_value) list option")
  (nesting: int)
  (tcontent: jsstring)
  (tchildren: "token list option")
  (info: jsstring)
  (hidden: bool)

text \<open>
  \<open>interface Node\<close>. The \<open>parent\<close> field is not stored: a node is addressed by its path
  from the root (the child indices), and the parent of the node at path \<open>p\<close> is the node
  at \<open>butlast p\<close>. The root object \<open>{ children: [] }\<close> has no name and no parent; its name
  is never read.
\<close>

datatype node = Node
  (name: jsstring)
  (nopen: "token option")
  (nclose: "token option")
  (nvalue: "jsstring option")
  (children: "node list option")

record annotation =
  atype :: jsstring
  attributes :: "(jsstring \<times> attr_value) list"
  astart :: int
  aend :: int

type_synonym handlers = "jsstring \<Rightarrow> (token \<Rightarrow> (jsstring \<times> attr_value) list) option"

section \<open>getAttributes\<close>

text \<open>
  An attributes object is an association list in insertion order; an assignment
  \<open>attributes[k] = v\<close> replaces the value of an existing key in place and appends a new key.
\<close>

definition assign :: "(jsstring \<times> attr_value) list \<Rightarrow> (jsstring \<times> attr_value) list
    \<Rightarrow> (jsstring \<times> attr_value) list" where
  "assign obj patch = fold (\<lambda>(k, v) acc. AList.update k v acc) patch obj"

definition getAttributes :: "token \<Rightarrow> (jsstring \<times> attr_value) list" where
  "getAttributes tok = assign [] (case attrs tok of None \<Rightarrow> [] | Some l \<Rightarrow> l)"

section \<open>toTree\<close>

definition set_children :: "node \<Rightarrow> node list \<Rightarrow> node" where
  "set_children n cs = Node (name n) (nopen n) (nclose n) (nvalue n) (Some cs)"

definition set_close :: "node \<Rightarrow> token \<Rightarrow> node" where
  "set_close n tok = Node (name n) (nopen n) (Some tok) (nvalue n) (children n)"

fun node_at :: "node \<Rightarrow> nat list \<Rightarrow> node option" where
  "node_at n [] = Some n"
| "node_at n (i # p) =
     (case children n of
        None \<Rightarrow> None
      | Some cs \<Rightarrow> if i < length cs then node_at (cs ! i) p else None)"

text \<open>
  Mutation of the node at a path. Reading a property of \<open>undefined\<close> is a \<open>TypeError\<close>;
  a path that leaves the tree cannot arise from \<open>toTree\<close> and is given the same result.
\<close>

fun modify_at :: "nat list \<Rightarrow> (node \<Rightarrow> error + node) \<Rightarrow> node \<Rightarrow> error + node" where
  "modify_at [] f n = f n"
| "modify_at (i # p) f n =
     (case children n of
        None \<Rightarrow> Inl TypeError
      | Some cs \<Rightarrow>
          if i < length cs then
            (case modify_at p f (cs ! i) of
               Inl e \<Rightarrow> Inl e
             | Inr c \<Rightarrow> Inr (set_children n (cs[i := c])))
          else Inl TypeError)"

text \<open>\<open>currentNode.children.push(child)\<close> for the node at path \<open>p\<close>.\<close>

definition push_child :: "nat list \<Rightarrow> node \<Rightarrow> node \<Rightarrow> error + node" where
  "push_child p child root =
     modify_at p (\<lambda>n. case children n of
                         None \<Rightarrow> Inl TypeError
                       | Some cs \<Rightarrow> Inr (set_children n (cs @ [child]))) root"

text \<open>\<open>name.replace(/_open$/, '')\<close>\<close>

definition strip_open :: "jsstring \<Rightarrow> jsstring" where
  "strip_open s =
     (if length (js ''_open'') \<le> length s \<and> drop (length s - length (js ''_open'')) s = js ''_open''
      then take (length s - length (js ''_open'')) s else s)"

definition text_node :: "jsstring \<Rightarrow> node" where
  "text_node v = Node (js ''text'') None None (Some v) None"

text \<open>The padding of an inline code span's content (lines 76-83).\<close>

definition pad_code :: "jsstring \<Rightarrow> jsstring" where
  "pad_code text0 =
     (let text1 = (if text0 \<noteq> [] \<and> hd text0 = of_char CHR ''`'' then js '' '' @ text0 else text0);
          text2 = (if text1 \<noteq> [] \<and> last text1 = of_char CHR ''`'' then text1 @ js '' '' else text1)
      in text2)"

definition leaf_text :: "token \<Rightarrow> jsstring" where
  "leaf_text tok = (if ttype tok = js ''code_inline'' then pad_code (tcontent tok) else tcontent tok)"

lemma size_tchildren [termination_simp]:
  "tchildren tok = Some cs \<Longrightarrow> size_list size cs < size tok"
  by (cases tok) simp

text \<open>
  One iteration of \<open>tokens.forEach\<close> is \<open>toTree_token\<close>; \<open>toTree_loop\<close> is the loop. The
  state is the variable \<open>currentNode\<close> (a path, or \<open>None\<close> for \<open>undefined\<close>) and the tree
  under construction, given by its root. A recursive call \<open>toTree(token.children, node)\<close>
  starts with its own \<open>currentNode\<close> and works on the same tree; its last \<open>currentNode\<close> is
  dropped when it returns.
\<close>

function (sequential) toTree_loop :: "token list \<Rightarrow> nat list option \<Rightarrow> node
      \<Rightarrow> error + (nat list option \<times> node)"
  and toTree_token :: "token \<Rightarrow> nat list option \<Rightarrow> node \<Rightarrow> error + (nat list option \<times> node)"
where
  "toTree_loop [] cur root = Inr (cur, root)"
| "toTree_loop (tok # toks) cur root =
     (case toTree_token tok cur root of
        Inl e \<Rightarrow> Inl e
      | Inr (cur', root') \<Rightarrow> toTree_loop toks cur' root')"
| "toTree_token tok cur root =
     (if tag tok = js ''br'' \<and> ttype tok = js ''softbreak'' then
        (case cur of
           None \<Rightarrow> Inl TypeError
         | Some p \<Rightarrow>
             (case push_child p (text_node (js [CHR 0x0A])) root of
                Inl e \<Rightarrow> Inl e
              | Inr root' \<Rightarrow> Inr (cur, root')))
      else if ttype tok = js ''text'' then
        (case cur of
           None \<Rightarrow> Inl TypeError
         | Some p \<Rightarrow>
             (case push_child p (text_node (tcontent tok)) root of
                Inl e \<Rightarrow> Inl e
              | Inr root' \<Rightarrow> Inr (cur, root')))
      else if ttype tok = js ''inline'' then
        (case tchildren tok of
           None \<Rightarrow> Inl TypeError
         | Some cs \<Rightarrow>
             (case toTree_loop cs cur root of
                Inl e \<Rightarrow> Inl e
              | Inr (_, root') \<Rightarrow> Inr (cur, root')))
      else if tchildren tok \<noteq> None \<and> tchildren tok \<noteq> Some [] then
        (case cur of
           None \<Rightarrow> Inl TypeError
         | Some p \<Rightarrow>
             (case node_at root p of
                None \<Rightarrow> Inl TypeError
              | Some parent \<Rightarrow>
                  (case children parent of
                     None \<Rightarrow> Inl TypeError
                   | Some siblings \<Rightarrow>
                       (case push_child p (Node (ttype tok) (Some tok) None None (Some [])) root of
                          Inl e \<Rightarrow> Inl e
                        | Inr root1 \<Rightarrow>
                            (case tchildren tok of
                               None \<Rightarrow> Inl TypeError
                             | Some cs \<Rightarrow>
                                 (case toTree_loop cs (Some (p @ [length siblings])) root1 of
                                    Inl e \<Rightarrow> Inl e
                                  | Inr (_, root') \<Rightarrow> Inr (cur, root')))))))
      else if nesting tok = 1 then
        (case cur of
           None \<Rightarrow> Inl TypeError
         | Some p \<Rightarrow>
             (case node_at root p of
                None \<Rightarrow> Inl TypeError
              | Some parent \<Rightarrow>
                  (case children parent of
                     None \<Rightarrow> Inl TypeError
                   | Some siblings \<Rightarrow>
                       (case push_child p
                               (Node (strip_open (ttype tok)) (Some tok) (Some tok) None (Some [])) root of
                          Inl e \<Rightarrow> Inl e
                        | Inr root' \<Rightarrow> Inr (Some (p @ [length siblings]), root')))))
      else if nesting tok = - 1 then
        (case cur of
           None \<Rightarrow> Inl TypeError
         | Some p \<Rightarrow>
             (case modify_at p (\<lambda>n. Inr (set_close n tok)) root of
                Inl e \<Rightarrow> Inl e
              | Inr root' \<Rightarrow> Inr (if p = [] then None else Some (butlast p), root')))
      else
        (case cur of
           None \<Rightarrow> Inl TypeError
         | Some p \<Rightarrow>
             (case push_child p
                     (Node (ttype tok) (Some tok) (Some tok) None (Some [text_node (leaf_text tok)])) root of
                Inl e \<Rightarrow> Inl e
              | Inr root' \<Rightarrow> Inr (cur, root'))))"
  by pat_completeness auto
termination
  by (relation "measure (\<lambda>x. case x of Inl (toks, _, _) \<Rightarrow> size_list size toks
                                     | Inr (tok, _, _) \<Rightarrow> size tok)")
     (auto simp: size_tchildren less_Suc_eq_le)

text \<open>\<open>toTree(tokens, rootNode)\<close> returns its argument \<open>rootNode\<close>.\<close>

definition toTree :: "token list \<Rightarrow> node \<Rightarrow> error + node" where
  "toTree tokens rootNode =
     (case toTree_loop tokens (Some []) rootNode of
        Inl e \<Rightarrow> Inl e
      | Inr (_, root') \<Rightarrow> Inr root')"

section \<open>getText\<close>

text \<open>
  \<open>getText\<close> fails only where it reads \<open>node.children.reduce\<close> of the node it is called
  on; below that node it recurses only into children that have a \<open>children\<close> array.
\<close>

lemma size_children:
  "children n = Some cs \<Longrightarrow> size_list size cs < size n"
  by (cases n) simp

function getText_nodes :: "node list \<Rightarrow> node list" where
  "getText_nodes [] = []"
| "getText_nodes (child # rest) =
     (if name child = js ''text'' then [child]
      else (case children child of None \<Rightarrow> [] | Some cs \<Rightarrow> getText_nodes cs))
     @ getText_nodes rest"
  by pat_completeness auto
termination
  by (relation "measure (size_list size)") (auto dest: size_children)

definition getText :: "node \<Rightarrow> error + node list" where
  "getText n = (case children n of None \<Rightarrow> Inl TypeError | Some cs \<Rightarrow> Inr (getText_nodes cs))"

text \<open>\<open>.map(n => n.value).join('')\<close>: \<open>join\<close> writes \<open>undefined\<close> as the empty string.\<close>

definition join_values :: "node list \<Rightarrow> jsstring" where
  "join_values ns = concat (map (\<lambda>n. case nvalue n of None \<Rightarrow> [] | Some v \<Rightarrow> v) ns)"

section \<open>Parser\<close>

record parser =
  content :: jsstring
  annotations :: "annotation list"

text \<open>\<open>token.attrs = token.attrs || []; token.attrs.push([k, v])\<close>\<close>

definition push_attr :: "token \<Rightarrow> jsstring \<Rightarrow> attr_value \<Rightarrow> token" where
  "push_attr tok k v =
     Token (ttype tok) (tag tok) (Some ((case attrs tok of None \<Rightarrow> [] | Some l \<Rightarrow> l) @ [(k, v)]))
       (nesting tok) (tcontent tok) (tchildren tok) (info tok) (hidden tok)"

text \<open>The image branch of \<open>walk\<close> (lines 124-129): the node as it is after the branch.\<close>

definition walk_image :: "node \<Rightarrow> error + node" where
  "walk_image n =
     (case nopen n of
        None \<Rightarrow> Inl TypeError
      | Some tok \<Rightarrow>
          (case getText n of
             Inl e \<Rightarrow> Inl e
           | Inr texts \<Rightarrow>
               Inr (Node (name n) (Some (push_attr tok (js ''alt'') (AStr (join_values texts))))
                      (nclose n) (nvalue n) (Some []))))"

text \<open>\<open>.some(child => child.open.hidden)\<close> stops at the first hit.\<close>

fun some_hidden :: "node list \<Rightarrow> error + bool" where
  "some_hidden [] = Inr False"
| "some_hidden (child # rest) =
     (case nopen child of
        None \<Rightarrow> Inl TypeError
      | Some tok \<Rightarrow> if hidden tok then Inr True else some_hidden rest)"

fun isTight :: "node list \<Rightarrow> error + bool" where
  "isTight [] = Inr False"
| "isTight (item # rest) =
     (case children item of
        None \<Rightarrow> Inl TypeError
      | Some cs \<Rightarrow>
          (case some_hidden (filter (\<lambda>child. name child = js ''paragraph'') cs) of
             Inl e \<Rightarrow> Inl e
           | Inr b \<Rightarrow> if b then Inr True else isTight rest))"

text \<open>The list branch of \<open>walk\<close> (lines 131-139).\<close>

definition walk_list :: "node \<Rightarrow> error + node" where
  "walk_list n =
     (case children n of
        None \<Rightarrow> Inl TypeError
      | Some items \<Rightarrow>
          (case isTight items of
             Inl e \<Rightarrow> Inl e
           | Inr b \<Rightarrow>
               (case nopen n of
                  None \<Rightarrow> Inl TypeError
                | Some tok \<Rightarrow>
                    Inr (Node (name n) (Some (push_attr tok (js ''tight'') (ABool b)))
                           (nclose n) (nvalue n) (children n)))))"

text \<open>
  \<open>convertTokenToAnnotation\<close> is a generator with one \<open>yield\<close>: \<open>convert_open\<close> is the
  code run by the first \<open>next()\<close>, \<open>convert_close\<close> the code run by the second, which
  still sees the local \<open>start\<close>.
\<close>

definition convert_open :: "jsstring \<Rightarrow> parser \<Rightarrow> parser" where
  "convert_open nm st =
     (let start = int (length (content st)) in
      st\<lparr>content := content st @ [placeholder],
         annotations := annotations st @
           [\<lparr>atype = js ''parse-token'',
             attributes = [(js ''type'', AStr (nm @ js ''_open''))],
             astart = start, aend = start + 1\<rparr>]\<rparr>)"

text \<open>
  \<open>parseInt(open.tag[1], 10)\<close> on one code unit (or \<open>undefined\<close>): a decimal digit gives
  its value, anything else \<open>NaN\<close>.
\<close>

definition parseInt_unit :: "jschar option \<Rightarrow> attr_value" where
  "parseInt_unit u =
     (case u of
        None \<Rightarrow> ANaN
      | Some c \<Rightarrow> if 0x30 \<le> c \<and> c \<le> 0x39 then ANum (uint c - 0x30) else ANaN)"

definition char_at :: "jsstring \<Rightarrow> nat \<Rightarrow> jschar option" where
  "char_at s i = (if i < length s then Some (s ! i) else None)"

text \<open>\<open>String.prototype.trim\<close>: white space and line terminators of ECMAScript.\<close>

definition is_space :: "jschar \<Rightarrow> bool" where
  "is_space c \<longleftrightarrow>
     c \<in> {0x09, 0x0A, 0x0B, 0x0C, 0x0D, 0x20, 0xA0, 0x1680, 0x2028, 0x2029, 0x202F, 0x205F,
          0x3000, 0xFEFF} \<or> (0x2000 \<le> c \<and> c \<le> 0x200A)"

definition trim :: "jsstring \<Rightarrow> jsstring" where
  "trim s = rev (dropWhile is_space (rev (dropWhile is_space s)))"

text \<open>
  \<open>entities.decodeHTML5\<close> belongs to a library outside the repository and is a parameter,
  as is the \<open>handlers\<close> object: \<open>handlers nm\<close> is the value of \<open>this.handlers[nm]\<close> when it
  is truthy.
\<close>

definition convert_close :: "(jsstring \<Rightarrow> jsstring) \<Rightarrow> handlers \<Rightarrow> jsstring \<Rightarrow> token option \<Rightarrow> int
    \<Rightarrow> parser \<Rightarrow> error + parser" where
  "convert_close decodeHTML5 h nm opn start st =
     (let content' = content st @ [placeholder];
          end' = int (length content')
      in case opn of
           None \<Rightarrow> Inl TypeError
         | Some tok \<Rightarrow>
             (let a0 = getAttributes tok;
                  a1 = (if nm = js ''heading''
                        then AList.update (js ''level'') (parseInt_unit (char_at (tag tok) 1)) a0
                        else a0);
                  a2 = (if nm = js ''fence''
                        then AList.update (js ''info'') (AStr (decodeHTML5 (trim (info tok)))) a1
                        else a1);
                  a3 = (case h nm of None \<Rightarrow> a2 | Some f \<Rightarrow> assign a2 (f tok))
              in Inr (st\<lparr>content := content',
                        annotations := annotations st @
                          [\<lparr>atype = js ''parse-token'',
                            attributes = [(js ''type'', AStr (nm @ js ''_close''))],
                            astart = end' - 1, aend = end'\<rparr>,
                           \<lparr>atype = nm, attributes = a3, astart = start, aend = end'\<rparr>]\<rparr>)))"

text \<open>\<open>this.content += node.value\<close> writes \<open>undefined\<close> as the string \<open>"undefined"\<close>.\<close>

definition value_string :: "jsstring option \<Rightarrow> jsstring" where
  "value_string v = (case v of None \<Rightarrow> js ''undefined'' | Some s \<Rightarrow> s)"

text \<open>The node as \<open>walk\<close> leaves it before it calls \<open>convertTokenToAnnotation\<close>.\<close>

definition walk_prepare :: "node \<Rightarrow> error + node" where
  "walk_prepare n =
     (case (if name n = js ''image'' then walk_image n else Inr n) of
        Inl e \<Rightarrow> Inl e
      | Inr n1 \<Rightarrow>
          if name n1 = js ''bullet_list'' \<or> name n1 = js ''ordered_list'' then walk_list n1
          else Inr n1)"

lemma walk_prepare_size [termination_simp]:
  "walk_prepare n = Inr n' \<Longrightarrow> children n' = Some cs \<Longrightarrow> size_list size cs < size n"
  by (cases n)
     (auto simp: walk_prepare_def walk_image_def walk_list_def getText_def
           split: if_splits sum.splits option.splits)

function (sequential) walk :: "(jsstring \<Rightarrow> jsstring) \<Rightarrow> handlers \<Rightarrow> node list \<Rightarrow> parser
      \<Rightarrow> error + parser"
  and walk_node :: "(jsstring \<Rightarrow> jsstring) \<Rightarrow> handlers \<Rightarrow> node \<Rightarrow> parser \<Rightarrow> error + parser"
where
  "walk d h [] st = Inr st"
| "walk d h (n # ns) st =
     (case walk_node d h n st of
        Inl e \<Rightarrow> Inl e
      | Inr st' \<Rightarrow> walk d h ns st')"
| "walk_node d h n st =
     (if name n = js ''text'' then Inr (st\<lparr>content := content st @ value_string (nvalue n)\<rparr>)
      else
        (case walk_prepare n of
           Inl e \<Rightarrow> Inl e
         | Inr n' \<Rightarrow>
             (case children n' of
                None \<Rightarrow> Inl TypeError
              | Some cs \<Rightarrow>
                  (case walk d h cs (convert_open (name n') st) of
                     Inl e \<Rightarrow> Inl e
                   | Inr st' \<Rightarrow>
                       convert_close d h (name n') (nopen n') (int (length (content st))) st'))))"
  by pat_completeness auto
termination
  by (relation "measure (\<lambda>x. case x of Inl (_, _, ns, _) \<Rightarrow> size_list size ns
                                     | Inr (_, _, n, _) \<Rightarrow> size n)")
     (auto simp: walk_prepare_size less_Suc_eq_le)

text \<open>The root object \<open>{ children: [] }\<close> that the constructor passes to \<open>toTree\<close>.\<close>

definition root_node :: node where
  "root_node = Node [] None None None (Some [])"

text \<open>The constructor of \<open>Parser\<close>; its result is the pair of \<open>content\<close> and \<open>annotations\<close>.\<close>

definition Parser :: "(jsstring \<Rightarrow> jsstring) \<Rightarrow> token list \<Rightarrow> handlers \<Rightarrow> error + parser" where
  "Parser decodeHTML5 tokens h =
     (case toTree tokens root_node of
        Inl e \<Rightarrow> Inl e
      | Inr root \<Rightarrow>
          (case children root of
             None \<Rightarrow> Inl TypeError
           | Some ns \<Rightarrow> walk decodeHTML5 h ns \<lparr>content = [], annotations = []\<rparr>))"

section \<open>Properties stated about the converter\<close>

text \<open>Every annotation lies inside the buffer.\<close>

definition bounded :: "parser \<Rightarrow> bool" where
  "bounded st \<longleftrightarrow> (\<forall>a \<in> set (annotations st).
      0 \<le> astart a \<and> astart a \<le> aend a \<and> aend a \<le> int (length (content st)))"

text \<open>The \<open>handlers\<close> object \<open>{}\<close> that the default export passes to \<open>Parser\<close>.\<close>

definition no_handlers :: handlers where
  "no_handlers = (\<lambda>_. None)"

definition marker :: "jsstring \<Rightarrow> int \<Rightarrow> annotation" where
  "marker ty start =
     \<lparr>atype = js ''parse-token'', attributes = [(js ''type'', AStr ty)],
      astart = start, aend = start + 1\<rparr>"

text \<open>
  The final annotation of the node at a position of the forest \<open>ns\<close>, walked from the state
  \<open>st\<close>: a position is the list of child indices leading to the node, through the children
  that \<open>walk\<close> visits. It is the annotation that the call of \<open>walk\<close> for that node pushes
  last. A position is an ancestor of the positions it is a proper prefix of.
\<close>

fun final_at :: "(jsstring \<Rightarrow> jsstring) \<Rightarrow> handlers \<Rightarrow> node list \<Rightarrow> parser \<Rightarrow> nat list
    \<Rightarrow> annotation option" where
  "final_at d h ns st [] = None"
| "final_at d h ns st (i # p) =
     (if i < length ns then
        (case walk d h (take i ns) st of
           Inl e \<Rightarrow> None
         | Inr st_i \<Rightarrow>
             if name (ns ! i) = js ''text'' then None
             else if p = [] then
               (case walk_node d h (ns ! i) st_i of
                  Inl e \<Rightarrow> None
                | Inr st' \<Rightarrow> Some (last (annotations st')))
             else
               (case walk_prepare (ns ! i) of
                  Inl e \<Rightarrow> None
                | Inr n' \<Rightarrow>
                    (case children n' of
                       None \<Rightarrow> None
                     | Some cs \<Rightarrow> final_at d h cs (convert_open (name n') st_i) p)))
      else None)"

text \<open>The value of a key of an annotation's attributes.\<close>

definition attribute :: "annotation \<Rightarrow> jsstring \<Rightarrow> attr_value option" where
  "attribute a k = map_of (attributes a) k"

text \<open>
  The custom handler registered for the type \<open>nm\<close> assigns the key \<open>k\<close> when it is given
  the token \<open>tok\<close>; \<open>Object.assign\<close> then replaces the value computed by the converter.
\<close>

definition overrides :: "handlers \<Rightarrow> jsstring \<Rightarrow> jsstring \<Rightarrow> token \<Rightarrow> bool" where
  "overrides h nm k tok = (case h nm of None \<Rightarrow> False | Some f \<Rightarrow> k \<in> fst ` set (f tok))"

text \<open>
  A paragraph whose open token is flagged \<open>hidden\<close>, and an item that has such a paragraph
  among its children.
\<close>

definition hidden_paragraph :: "node \<Rightarrow> bool" where
  "hidden_paragraph c \<longleftrightarrow>
     name c = js ''paragraph'' \<and> (case nopen c of None \<Rightarrow> False | Some tok \<Rightarrow> hidden tok)"

definition has_hidden_paragraph :: "node \<Rightarrow> bool" where
  "has_hidden_paragraph item \<longleftrightarrow>
     (case children item of None \<Rightarrow> False | Some cs \<Rightarrow> \<exists>c \<in> set cs. hidden_paragraph c)"

text \<open>Every node of a forest, in document order, and the literal text it holds.\<close>

function all_nodes :: "node list \<Rightarrow> node list" where
  "all_nodes [] = []"
| "all_nodes (n # rest) =
     n # (case children n of None \<Rightarrow> [] | Some cs \<Rightarrow> all_nodes cs) @ all_nodes rest"
  by pat_completeness auto
termination
  by (relation "measure (size_list size)") (auto dest: size_children)

definition literal_text :: "node list \<Rightarrow> jsstring" where
  "literal_text ns =
     concat (map (\<lambda>m. case nvalue m of None \<Rightarrow> [] | Some v \<Rightarrow> v)
                 (filter (\<lambda>m. name m = js ''text'') (all_nodes ns)))"

text \<open>
  The nodes that \<open>walk\<close> visits, in document order: the descendants of an image node are
  discarded before the recursion, and a text node is not descended into.
\<close>

function visited :: "node list \<Rightarrow> node list" where
  "visited [] = []"
| "visited (n # rest) =
     n # (if name n = js ''text'' \<or> name n = js ''image'' then []
          else (case children n of None \<Rightarrow> [] | Some cs \<Rightarrow> visited cs))
     @ visited rest"
  by pat_completeness auto
termination
  by (relation "measure (size_list size)") (auto dest: size_children)

text \<open>
  The total length of the text values among some nodes (a text node without a value is
  written to the buffer as \<open>"undefined"\<close>), and the number of nodes that are not text nodes.
\<close>

definition text_units :: "node list \<Rightarrow> nat" where
  "text_units ns =
     sum_list (map (\<lambda>n. length (value_string (nvalue n))) (filter (\<lambda>n. name n = js ''text'') ns))"

definition nontext_count :: "node list \<Rightarrow> nat" where
  "nontext_count ns = length (filter (\<lambda>n. name n \<noteq> js ''text'') ns)"


text \<open>A soft line break, and the text node \<open>toTree\<close> makes of it.\<close>

definition softbreak :: "token \<Rightarrow> bool" where
  "softbreak tok \<longleftrightarrow> tag tok = js ''br'' \<and> ttype tok = js ''softbreak''"

definition newline :: jschar where
  "newline = 0x0A"

text \<open>
  An atomic leaf element: a token that reaches the last branch of \<open>toTree\<close>, where it is
  both the open and the close payload of its node.
\<close>

definition atomic_leaf :: "token \<Rightarrow> bool" where
  "atomic_leaf tok \<longleftrightarrow>
     \<not> (tag tok = js ''br'' \<and> ttype tok = js ''softbreak'')
     \<and> ttype tok \<noteq> js ''text'' \<and> ttype tok \<noteq> js ''inline''
     \<and> (tchildren tok = None \<or> tchildren tok = Some [])
     \<and> nesting tok \<noteq> 1 \<and> nesting tok \<noteq> - 1"

text \<open>
  The padded content of a code span in the words of the specification: a space before a
  leading backtick and a space after a trailing backtick of the token's content.
\<close>

definition padded :: "jsstring \<Rightarrow> jsstring" where
  "padded c =
     (if c \<noteq> [] \<and> hd c = 0x60 then [0x20] else []) @ c
     @ (if c \<noteq> [] \<and> last c = 0x60 then [0x20] else [])"

section \<open>Examples\<close>

text \<open>The state of a new \<open>Parser\<close>, and a final annotation written in one line.\<close>

definition empty_parser :: parser where
  "empty_parser = \<lparr>content = [], annotations = []\<rparr>"

definition final :: "jsstring \<Rightarrow> (jsstring \<times> attr_value) list \<Rightarrow> int \<Rightarrow> int \<Rightarrow> annotation" where
  "final ty kvs start end' = \<lparr>atype = ty, attributes = kvs, astart = start, aend = end'\<rparr>"

text \<open>A tokenizer's token with neither attributes, content nor children.\<close>

definition ex_tok :: "string \<Rightarrow> string \<Rightarrow> int \<Rightarrow> token" where
  "ex_tok ty tg nest = Token (js ty) (js tg) None nest [] None [] False"

definition ex_text :: "string \<Rightarrow> token" where
  "ex_text s = Token (js ''text'') [] None 0 (js s) None [] False"

text \<open>The heading \<open>## *a*\<close>: tokens, nodes, and the converted document.\<close>

definition ex_heading :: "token list" where
  "ex_heading =
     [ex_tok ''heading_open'' ''h2'' 1,
      Token (js ''inline'') [] None 0 (js ''*a*'')
        (Some [ex_tok ''em_open'' ''em'' 1, ex_text ''a'', ex_tok ''em_close'' ''em'' (- 1)]) [] False,
      ex_tok ''heading_close'' ''h2'' (- 1)]"

definition ex_em_node :: node where
  "ex_em_node =
     Node (js ''em'') (Some (ex_tok ''em_open'' ''em'' 1)) (Some (ex_tok ''em_close'' ''em'' (- 1)))
       None (Some [text_node (js ''a'')])"

definition ex_heading_node :: node where
  "ex_heading_node =
     Node (js ''heading'') (Some (ex_tok ''heading_open'' ''h2'' 1))
       (Some (ex_tok ''heading_close'' ''h2'' (- 1))) None (Some [ex_em_node])"

definition ex_em_final :: annotation where
  "ex_em_final = final (js ''em'') [] 1 4"

definition ex_heading_final :: annotation where
  "ex_heading_final = final (js ''heading'') [(js ''level'', ANum 2)] 0 5"

definition ex_heading_doc :: parser where
  "ex_heading_doc =
     \<lparr>content = [placeholder, placeholder] @ js ''a'' @ [placeholder, placeholder],
      annotations =
        [marker (js ''heading_open'') 0, marker (js ''em_open'') 1, marker (js ''em_close'') 3,
         ex_em_final, marker (js ''heading_close'') 4, ex_heading_final]\<rparr>"


text \<open>Two soft line breaks in a row.\<close>

definition ex_softbreak :: token where
  "ex_softbreak = ex_tok ''softbreak'' ''br'' 0"

text \<open>A bullet list of two items; the paragraph of the second is flagged \<open>hidden\<close>.\<close>

definition ex_item_empty :: node where
  "ex_item_empty =
     Node (js ''list_item'') (Some (ex_tok ''list_item_open'' ''li'' 1))
       (Some (ex_tok ''list_item_close'' ''li'' (- 1))) None (Some [])"

definition ex_paragraph_hidden :: node where
  "ex_paragraph_hidden =
     Node (js ''paragraph'') (Some (Token (js ''paragraph_open'') (js ''p'') None 1 [] None [] True))
       (Some (Token (js ''paragraph_close'') (js ''p'') None (- 1) [] None [] True)) None (Some [])"

definition ex_item_tight :: node where
  "ex_item_tight =
     Node (js ''list_item'') (Some (ex_tok ''list_item_open'' ''li'' 1))
       (Some (ex_tok ''list_item_close'' ''li'' (- 1))) None (Some [ex_paragraph_hidden])"

definition ex_list :: node where
  "ex_list =
     Node (js ''bullet_list'') (Some (ex_tok ''bullet_list_open'' ''ul'' 1))
       (Some (ex_tok ''bullet_list_close'' ''ul'' (- 1))) None (Some [ex_item_empty, ex_item_tight])"

definition ex_list_doc :: parser where
  "ex_list_doc =
     \<lparr>content = replicate 8 placeholder,
      annotations =
        [marker (js ''bullet_list_open'') 0,
         marker (js ''list_item_open'') 1, marker (js ''list_item_close'') 2,
         final (js ''list_item'') [] 1 3,
         marker (js ''list_item_open'') 3,
         marker (js ''paragraph_open'') 4, marker (js ''paragraph_close'') 5,
         final (js ''paragraph'') [] 4 6,
         marker (js ''list_item_close'') 6,
         final (js ''list_item'') [] 3 7,
         marker (js ''bullet_list_close'') 7,
         final (js ''bullet_list'') [(js ''tight'', ABool True)] 0 8]\<rparr>"

text \<open>The image \<open>![a*b*](u)\<close>: its token, its node, and the converted document.\<close>

definition ex_image_token :: token where
  "ex_image_token =
     Token (js ''image'') (js ''img'') (Some [(js ''src'', AStr (js ''u''))]) 0 (js ''ab'')
       (Some [ex_text ''a'', ex_tok ''em_open'' ''em'' 1, ex_text ''b'',
              ex_tok ''em_close'' ''em'' (- 1)]) [] False"

definition ex_image_children :: "node list" where
  "ex_image_children =
     [text_node (js ''a''),
      Node (js ''em'') (Some (ex_tok ''em_open'' ''em'' 1)) (Some (ex_tok ''em_close'' ''em'' (- 1)))
        None (Some [text_node (js ''b'')])]"

definition ex_image :: node where
  "ex_image = Node (js ''image'') (Some ex_image_token) None None (Some ex_image_children)"

definition ex_image_doc :: parser where
  "ex_image_doc =
     \<lparr>content = [placeholder, placeholder],
      annotations =
        [marker (js ''image_open'') 0, marker (js ''image_close'') 1,
         final (js ''image'') [(js ''src'', AStr (js ''u'')), (js ''alt'', AStr (js ''ab''))] 0 2]\<rparr>"

text \<open>A fenced block with the info string \<open>" js "\<close>.\<close>

definition ex_fence_token :: token where
  "ex_fence_token = Token (js ''fence'') (js ''code'') None 0 (js ''x'') None (js '' js '') False"

definition ex_fence :: node where
  "ex_fence =
     Node (js ''fence'') (Some ex_fence_token) (Some ex_fence_token) None
       (Some [text_node (js ''x'')])"

definition ex_fence_doc :: parser where
  "ex_fence_doc =
     \<lparr>content = [placeholder] @ js ''x'' @ [placeholder],
      annotations =
        [marker (js ''fence_open'') 0, marker (js ''fence_close'') 2,
         final (js ''fence'') [(js ''info'', AStr (js ''js''))] 0 3]\<rparr>"

text \<open>The code span \<open>`` `x` ``\<close>, whose content starts and ends with a backtick.\<close>

definition ex_code :: token where
  "ex_code = Token (js ''code_inline'') (js ''code'') None 0 (js ''`x`'') None [] False"

text \<open>The document of the empty list item alone.\<close>

definition ex_item_doc :: parser where
  "ex_item_doc =
     \<lparr>content = [placeholder, placeholder],
      annotations =
        [marker (js ''list_item_open'') 0, marker (js ''list_item_close'') 1,
         final (js ''list_item'') [] 0 2]\<rparr>"

text \<open>
  The image with the alternative text \<open>a\<close>, a soft line break, \<open>b\<close>: its token, its node
  before the break is pushed, its node, and the converted document.
\<close>

definition ex_image_break_token :: token where
  "ex_image_break_token =
     Token (js ''image'') (js ''img'') (Some [(js ''src'', AStr (js ''u''))]) 0 (js ''a'' @ [0x0A] @ js ''b'')
       (Some [ex_text ''a'', ex_softbreak, ex_text ''b'']) [] False"

definition ex_image_open :: node where
  "ex_image_open =
     Node (js ''image'') (Some ex_image_break_token) None None
       (Some [Node (js ''text'') None None (Some (js ''a'')) None])"

definition ex_image_break :: node where
  "ex_image_break =
     Node (js ''image'') (Some ex_image_break_token) None None
       (Some [Node (js ''text'') None None (Some (js ''a'')) None,
              Node (js ''text'') None None (Some [0x0A]) None,
              Node (js ''text'') None None (Some (js ''b'')) None])"

definition ex_image_break_doc :: parser where
  "ex_image_break_doc =
     \<lparr>content = [placeholder, placeholder],
      annotations =
        [marker (js ''image_open'') 0, marker (js ''image_close'') 1,
         final (js ''image'')
           [(js ''src'', AStr (js ''u'')), (js ''alt'', AStr (js ''a'' @ [0x0A] @ js ''b''))] 0 2]\<rparr>"

text \<open>A tree whose current node is an open paragraph holding the text \<open>a\<close>.\<close>

definition ex_paragraph_tree :: node where
  "ex_paragraph_tree =
     Node [] None None None
       (Some [Node (js ''paragraph'') (Some (ex_tok ''paragraph_open'' ''p'' 1))
                (Some (ex_tok ''paragraph_open'' ''p'' 1)) None
                (Some [Node (js ''text'') None None (Some (js ''a'')) None])])"

section \<open>Basic facts about walk\<close>

declare toTree_token.simps [simp del]

declare walk_node.simps [simp del]

lemma walk_append:
  "walk d h (xs @ ys) st = (case walk d h xs st of Inl e \<Rightarrow> Inl e | Inr st' \<Rightarrow> walk d h ys st')"
  by (induction xs arbitrary: st) (auto split: sum.splits)

lemma walk_prepare_name: "walk_prepare n = Inr n' \<Longrightarrow> name n' = name n"
  by (auto simp: walk_prepare_def walk_image_def walk_list_def
           split: if_splits sum.splits option.splits)

lemma walk_prepare_children:
  "walk_prepare n = Inr n' \<Longrightarrow>
     children n' = (if name n = js ''image'' then Some [] else children n)"
  by (auto simp: walk_prepare_def walk_image_def walk_list_def js_def
           split: if_splits sum.splits option.splits)

lemma walk_node_text:
  "name n = js ''text'' \<Longrightarrow>
     walk_node d h n st = Inr (st\<lparr>content := content st @ value_string (nvalue n)\<rparr>)"
  by (simp add: walk_node.simps)

lemma walk_node_nontext:
  assumes "name n \<noteq> js ''text''" and "walk_node d h n st = Inr st'"
  obtains n' cs mid tok where
    "walk_prepare n = Inr n'" "children n' = Some cs" "nopen n' = Some tok"
    "walk d h cs (convert_open (name n) st) = Inr mid"
    "convert_close d h (name n) (Some tok) (int (length (content st))) mid = Inr st'"
proof -
  from assms obtain n' where p: "walk_prepare n = Inr n'"
    by (auto simp: walk_node.simps split: sum.splits)
  then have nm: "name n' = name n" by (rule walk_prepare_name)
  from assms p obtain cs where c: "children n' = Some cs"
    by (auto simp: walk_node.simps split: option.splits)
  from assms p c nm obtain mid where
    m: "walk d h cs (convert_open (name n) st) = Inr mid"
    and cl: "convert_close d h (name n) (nopen n') (int (length (content st))) mid = Inr st'"
    by (auto simp: walk_node.simps split: sum.splits)
  from cl obtain tok where "nopen n' = Some tok"
    by (cases "nopen n'") (auto simp: convert_close_def Let_def)
  with p c m cl that show thesis by metis
qed

lemma convert_close_Some:
  "convert_close d h nm (Some tok) start st = Inr st' \<Longrightarrow>
     content st' = content st @ [placeholder] \<and>
     (\<exists>attrs. annotations st' = annotations st @
        [\<lparr>atype = js ''parse-token'', attributes = [(js ''type'', AStr (nm @ js ''_close''))],
          astart = int (length (content st)), aend = int (length (content st)) + 1\<rparr>,
         \<lparr>atype = nm, attributes = attrs, astart = start, aend = int (length (content st)) + 1\<rparr>])"
  by (auto simp: convert_close_def Let_def)

lemma convert_open_content: "content (convert_open nm st) = content st @ [placeholder]"
  by (simp add: convert_open_def Let_def)

lemma convert_open_annotations:
  "annotations (convert_open nm st) = annotations st @
     [\<lparr>atype = js ''parse-token'', attributes = [(js ''type'', AStr (nm @ js ''_open''))],
       astart = int (length (content st)), aend = int (length (content st)) + 1\<rparr>]"
  by (simp add: convert_open_def Let_def)

lemma walk_grows:
  "walk d h ns st = Inr st' \<Longrightarrow>
     (\<exists>c. content st' = content st @ c) \<and> (\<exists>a. annotations st' = annotations st @ a)"
  "walk_node d h n st = Inr st' \<Longrightarrow>
     (\<exists>c. content st' = content st @ c) \<and> (\<exists>a. annotations st' = annotations st @ a)"
proof (induction d h ns st and d h n st arbitrary: st' and st' rule: walk_walk_node.induct)
  case (1 d h st)
  then show ?case by simp
next
  case (2 d h n ns st)
  from "2.prems" obtain s1 where s1: "walk_node d h n st = Inr s1" and s2: "walk d h ns s1 = Inr st'"
    by (auto split: sum.splits)
  from "2.IH"(1)[OF s1] "2.IH"(2)[OF s1 s2] show ?case by auto
next
  case (3 d h n st)
  show ?case
  proof (cases "name n = js ''text''")
    case True
    with "3.prems" show ?thesis by (auto simp: walk_node_text)
  next
    case False
    from False "3.prems" obtain n' cs mid tok where
      p: "walk_prepare n = Inr n'" "children n' = Some cs"
      and m: "walk d h cs (convert_open (name n) st) = Inr mid"
      and c: "convert_close d h (name n) (Some tok) (int (length (content st))) mid = Inr st'"
      by (rule walk_node_nontext)
    have nm: "name n' = name n" using p(1) by (rule walk_prepare_name)
    from "3.IH"[OF False p] m nm
    have "(\<exists>c. content mid = content (convert_open (name n) st) @ c) \<and>
          (\<exists>a. annotations mid = annotations (convert_open (name n) st) @ a)" by simp
    with convert_close_Some[OF c] show ?thesis
      by (auto simp: convert_open_content convert_open_annotations)
  qed
qed

lemma bounded_grow:
  assumes "bounded st" and "content st' = content st @ c"
    and "annotations st' = annotations st @ new"
    and "\<And>a. a \<in> set new \<Longrightarrow>
           0 \<le> astart a \<and> astart a \<le> aend a \<and> aend a \<le> int (length (content st'))"
  shows "bounded st'"
  unfolding bounded_def
proof
  fix a assume "a \<in> set (annotations st')"
  then consider "a \<in> set (annotations st)" | "a \<in> set new" using assms(3) by auto
  then show "0 \<le> astart a \<and> astart a \<le> aend a \<and> aend a \<le> int (length (content st'))"
  proof cases
    case 1
    with assms(1) have "0 \<le> astart a \<and> astart a \<le> aend a \<and> aend a \<le> int (length (content st))"
      by (simp add: bounded_def)
    then show ?thesis using assms(2) by simp
  next
    case 2
    then show ?thesis by (rule assms(4))
  qed
qed

lemma walk_bounded:
  "walk d h ns st = Inr st' \<Longrightarrow> bounded st \<Longrightarrow> bounded st'"
  "walk_node d h n st = Inr st' \<Longrightarrow> bounded st \<Longrightarrow> bounded st'"
proof (induction d h ns st and d h n st arbitrary: st' and st' rule: walk_walk_node.induct)
  case (1 d h st)
  then show ?case by simp
next
  case (2 d h n ns st)
  from "2.prems" obtain s1 where s1: "walk_node d h n st = Inr s1" and s2: "walk d h ns s1 = Inr st'"
    by (auto split: sum.splits)
  from "2.IH"(1)[OF s1 "2.prems"(2)] "2.IH"(2)[OF s1 s2] show ?case by simp
next
  case (3 d h n st)
  show ?case
  proof (cases "name n = js ''text''")
    case True
    with "3.prems"(1) have "content st' = content st @ value_string (nvalue n)"
      and "annotations st' = annotations st @ []"
      by (auto simp: walk_node_text)
    with "3.prems"(2) show ?thesis by (rule bounded_grow) simp
  next
    case False
    from False "3.prems"(1) obtain n' cs mid tok where
      p: "walk_prepare n = Inr n'" "children n' = Some cs"
      and m: "walk d h cs (convert_open (name n) st) = Inr mid"
      and c: "convert_close d h (name n) (Some tok) (int (length (content st))) mid = Inr st'"
      by (rule walk_node_nontext)
    have nm: "name n' = name n" using p(1) by (rule walk_prepare_name)
    have b1: "bounded (convert_open (name n) st)"
      using "3.prems"(2) convert_open_content convert_open_annotations
      by (rule bounded_grow) (auto simp: convert_open_content)
    from "3.IH"[OF False p] m nm b1 have b2: "bounded mid" by simp
    from walk_grows(1)[OF m] obtain cc where cc: "content mid = content st @ [placeholder] @ cc"
      by (auto simp: convert_open_content)
    from convert_close_Some[OF c] obtain attrs where
      c1: "content st' = content mid @ [placeholder]"
      and c2: "annotations st' = annotations mid @
        [\<lparr>atype = js ''parse-token'', attributes = [(js ''type'', AStr (name n @ js ''_close''))],
          astart = int (length (content mid)), aend = int (length (content mid)) + 1\<rparr>,
         \<lparr>atype = name n, attributes = attrs, astart = int (length (content st)),
          aend = int (length (content mid)) + 1\<rparr>]"
      by blast
    from b2 c1 c2 show ?thesis
      by (rule bounded_grow) (auto simp: c1 cc)
  qed
qed

lemma walk_nth:
  assumes "walk d h ns st = Inr st'" and "i < length ns"
  obtains s1 s2 where "walk d h (take i ns) st = Inr s1"
    "walk_node d h (ns ! i) s1 = Inr s2" "walk d h (drop (Suc i) ns) s2 = Inr st'"
proof -
  have "ns = take i ns @ (ns ! i # drop (Suc i) ns)"
    using assms(2) by (simp add: id_take_nth_drop)
  then have "walk d h (take i ns @ (ns ! i # drop (Suc i) ns)) st = Inr st'"
    using assms(1) by simp
  then show thesis
    using that by (auto simp: walk_append split: sum.splits)
qed

lemma walk_node_final:
  assumes "name n \<noteq> js ''text''" and "walk_node d h n st = Inr st'"
  obtains n' cs mid where
    "walk_prepare n = Inr n'" "children n' = Some cs" "name n' = name n"
    "walk d h cs (convert_open (name n) st) = Inr mid"
    "content st' = content mid @ [placeholder]"
    "set (annotations mid) \<subseteq> set (annotations st')"
    "astart (last (annotations st')) = int (length (content st))"
    "aend (last (annotations st')) = int (length (content st'))"
    "last (annotations st') \<in> set (annotations st')"
proof -
  from assms obtain n' cs mid tok where
    p: "walk_prepare n = Inr n'" "children n' = Some cs"
    and m: "walk d h cs (convert_open (name n) st) = Inr mid"
    and c: "convert_close d h (name n) (Some tok) (int (length (content st))) mid = Inr st'"
    by (rule walk_node_nontext)
  have nm: "name n' = name n" using p(1) by (rule walk_prepare_name)
  from convert_close_Some[OF c] have
    "content st' = content mid @ [placeholder]"
    "set (annotations mid) \<subseteq> set (annotations st')"
    "astart (last (annotations st')) = int (length (content st))"
    "aend (last (annotations st')) = int (length (content st'))"
    "last (annotations st') \<in> set (annotations st')"
    by auto
  with p nm m show thesis by (rule that)
qed

lemma final_at_range:
  assumes "final_at d h ns st p = Some b" and "walk d h ns st = Inr st'"
  shows "int (length (content st)) \<le> astart b \<and> aend b \<le> int (length (content st'))
         \<and> b \<in> set (annotations st')"
  using assms
proof (induction p arbitrary: ns st st')
  case Nil
  then show ?case by simp
next
  case (Cons i p)
  from Cons.prems(1) have i: "i < length ns" by (simp split: if_splits)
  from Cons.prems(2) i obtain s1 s2 where
    s1: "walk d h (take i ns) st = Inr s1"
    and s2: "walk_node d h (ns ! i) s1 = Inr s2"
    and s3: "walk d h (drop (Suc i) ns) s2 = Inr st'"
    by (rule walk_nth)
  from Cons.prems(1) i s1 have nt: "name (ns ! i) \<noteq> js ''text''"
    by (simp split: if_splits)
  from walk_grows(1)[OF s1] have l1: "length (content st) \<le> length (content s1)" by auto
  from walk_grows(1)[OF s3] have l3: "length (content s2) \<le> length (content st')"
    and a3: "set (annotations s2) \<subseteq> set (annotations st')" by auto
  from nt s2 obtain n' cs mid where
    p: "walk_prepare (ns ! i) = Inr n'" "children n' = Some cs" "name n' = name (ns ! i)"
    and m: "walk d h cs (convert_open (name (ns ! i)) s1) = Inr mid"
    and c: "content s2 = content mid @ [placeholder]"
      "set (annotations mid) \<subseteq> set (annotations s2)"
      "astart (last (annotations s2)) = int (length (content s1))"
      "aend (last (annotations s2)) = int (length (content s2))"
      "last (annotations s2) \<in> set (annotations s2)"
    by (rule walk_node_final)
  show ?case
  proof (cases "p = []")
    case True
    with Cons.prems(1) i s1 nt s2 have "b = last (annotations s2)" by simp
    with c l1 l3 a3 show ?thesis by auto
  next
    case False
    with Cons.prems(1) i s1 nt p
    have "final_at d h cs (convert_open (name (ns ! i)) s1) p = Some b" by simp
    from Cons.IH[OF this m]
    have "int (length (content s1)) \<le> astart b" "aend b \<le> int (length (content mid))"
      "b \<in> set (annotations mid)"
      by (auto simp: convert_open_content)
    with c l1 l3 a3 show ?thesis by auto
  qed
qed

lemma map_of_assign:
  "map_of (assign obj patch) k =
     (case map_of (rev patch) k of None \<Rightarrow> map_of obj k | Some v \<Rightarrow> Some v)"
proof (induction patch arbitrary: obj)
  case Nil
  then show ?case by (simp add: assign_def)
next
  case (Cons kv patch)
  obtain k' v' where kv: "kv = (k', v')" by (cases kv)
  have "assign obj (kv # patch) = assign (AList.update k' v' obj) patch"
    by (simp add: assign_def kv)
  then show ?case
    using Cons.IH[of "AList.update k' v' obj"]
    by (auto simp: kv update_conv' map_add_def split: option.splits)
qed

lemma map_of_assign_keeps:
  "k \<notin> fst ` set patch \<Longrightarrow> map_of (assign obj patch) k = map_of obj k"
proof -
  assume "k \<notin> fst ` set patch"
  then have "map_of (rev patch) k = None"
    by (simp add: map_of_eq_None_iff)
  then show ?thesis by (simp add: map_of_assign)
qed

lemma getAttributes_push_attr:
  "map_of (getAttributes (push_attr tok k v)) k = Some v"
  by (simp add: getAttributes_def push_attr_def map_of_assign)

lemma js_distinct:
  "js ''heading'' \<noteq> js ''fence''" "js ''level'' \<noteq> js ''info''"
  "js ''image'' \<noteq> js ''bullet_list''" "js ''image'' \<noteq> js ''ordered_list''"
  "js ''image'' \<noteq> js ''heading''" "js ''image'' \<noteq> js ''fence''"
  "js ''bullet_list'' \<noteq> js ''heading''" "js ''bullet_list'' \<noteq> js ''fence''"
  "js ''ordered_list'' \<noteq> js ''heading''" "js ''ordered_list'' \<noteq> js ''fence''"
  "js ''image'' \<noteq> js ''text''" "js ''bullet_list'' \<noteq> js ''text''"
  "js ''ordered_list'' \<noteq> js ''text''" "js ''heading'' \<noteq> js ''text''"
  "js ''fence'' \<noteq> js ''text''"
  by (simp_all add: js_def)

lemma convert_close_attribute:
  assumes "convert_close d h nm (Some tok) start st = Inr st'"
    and "\<forall>t. \<not> overrides h nm k t"
  shows "attribute (last (annotations st')) k =
     (if nm = js ''fence'' \<and> k = js ''info'' then Some (AStr (d (trim (info tok))))
      else if nm = js ''heading'' \<and> k = js ''level''
        then Some (parseInt_unit (char_at (tag tok) 1))
      else map_of (getAttributes tok) k)"
proof (cases "h nm")
  case None
  with assms(1) show ?thesis
    by (auto simp: convert_close_def Let_def attribute_def update_conv' js_distinct)
next
  case (Some f)
  with assms(2) have "k \<notin> fst ` set (f tok)"
    by (auto simp: overrides_def)
  with Some assms(1) show ?thesis
    by (auto simp: convert_close_def Let_def attribute_def update_conv' js_distinct
          map_of_assign_keeps)
qed

lemma some_hidden_iff:
  "some_hidden ps = Inr b \<Longrightarrow>
     b = (\<exists>c \<in> set ps. case nopen c of None \<Rightarrow> False | Some tok \<Rightarrow> hidden tok)"
  by (induction ps) (auto split: option.splits if_splits)

lemma isTight_iff:
  "isTight items = Inr b \<Longrightarrow> b = (\<exists>item \<in> set items. has_hidden_paragraph item)"
proof (induction items)
  case Nil
  then show ?case by simp
next
  case (Cons item rest)
  from Cons.prems obtain cs where cs: "children item = Some cs"
    by (auto split: option.splits)
  from Cons.prems cs obtain b1 where
    b1: "some_hidden (filter (\<lambda>child. name child = js ''paragraph'') cs) = Inr b1"
    by (auto split: sum.splits)
  from some_hidden_iff[OF b1] cs have h: "b1 = has_hidden_paragraph item"
    by (auto simp: has_hidden_paragraph_def hidden_paragraph_def)
  show ?case
  proof (cases b1)
    case True
    with Cons.prems cs b1 h show ?thesis by simp
  next
    case False
    with Cons.prems cs b1 have "isTight rest = Inr b" by simp
    from Cons.IH[OF this] False h show ?thesis by simp
  qed
qed

lemma getText_nodes_all:
  "\<forall>m \<in> set (all_nodes cs). name m = js ''text'' \<longrightarrow> children m = None \<Longrightarrow>
     getText_nodes cs = filter (\<lambda>m. name m = js ''text'') (all_nodes cs)"
proof (induction cs rule: getText_nodes.induct)
  case 1
  then show ?case by simp
next
  case (2 child rest)
  show ?case
  proof (cases "name child = js ''text''")
    case True
    with "2.prems" have "children child = None" by simp
    with True "2.IH"(2) "2.prems" show ?thesis by simp
  next
    case False
    show ?thesis
    proof (cases "children child")
      case None
      with False "2.IH"(2) "2.prems" show ?thesis by simp
    next
      case (Some gs)
      with False "2.IH"(1)[OF False Some] "2.IH"(2) "2.prems" show ?thesis by simp
    qed
  qed
qed

lemma visited_Cons: "visited (n # rest) = visited [n] @ visited rest"
  by simp

lemma visited_single:
  "visited [n] =
     n # (if name n = js ''text'' \<or> name n = js ''image'' then []
          else (case children n of None \<Rightarrow> [] | Some cs \<Rightarrow> visited cs))"
  by simp

declare visited.simps(2) [simp del]

lemma text_units_append [simp]: "text_units (xs @ ys) = text_units xs + text_units ys"
  by (simp add: text_units_def)

lemma nontext_count_append [simp]:
  "nontext_count (xs @ ys) = nontext_count xs + nontext_count ys"
  by (simp add: nontext_count_def)

lemma walk_content_length:
  "walk d h ns st = Inr st' \<Longrightarrow>
     length (content st') =
       length (content st) + text_units (visited ns) + 2 * nontext_count (visited ns)"
  "walk_node d h n st = Inr st' \<Longrightarrow>
     length (content st') =
       length (content st) + text_units (visited [n]) + 2 * nontext_count (visited [n])"
proof (induction d h ns st and d h n st arbitrary: st' and st' rule: walk_walk_node.induct)
  case (1 d h st)
  then show ?case by (simp add: text_units_def nontext_count_def)
next
  case (2 d h n ns st)
  from "2.prems" obtain s1 where s1: "walk_node d h n st = Inr s1" and s2: "walk d h ns s1 = Inr st'"
    by (auto split: sum.splits)
  from "2.IH"(1)[OF s1] "2.IH"(2)[OF s1 s2] show ?case
    by (subst visited_Cons, subst (2) visited_Cons) simp
next
  case (3 d h n st)
  show ?case
  proof (cases "name n = js ''text''")
    case True
    with "3.prems" show ?thesis
      by (auto simp: walk_node_text visited_single text_units_def nontext_count_def)
  next
    case False
    from False "3.prems" obtain n' cs mid where
      p: "walk_prepare n = Inr n'" "children n' = Some cs" "name n' = name n"
      and m: "walk d h cs (convert_open (name n) st) = Inr mid"
      and c: "content st' = content mid @ [placeholder]"
      by (rule walk_node_final)
    from "3.IH"[OF False p(1,2)] m p(3)
    have l: "length (content mid) = length (content (convert_open (name n) st))
        + text_units (visited cs) + 2 * nontext_count (visited cs)" by simp
    have v: "visited [n] = n # visited cs"
    proof (cases "name n = js ''image''")
      case True
      with walk_prepare_children[OF p(1)] p(2) have "cs = []" by simp
      with True show ?thesis by (simp add: visited_single)
    next
      case image: False
      with walk_prepare_children[OF p(1)] p(2) have "children n = Some cs" by simp
      with image False show ?thesis by (simp add: visited_single)
    qed
    have "text_units (n # visited cs) = text_units (visited cs)"
      "nontext_count (n # visited cs) = Suc (nontext_count (visited cs))"
      using False by (simp_all add: text_units_def nontext_count_def)
    with l c v show ?thesis by (simp add: convert_open_content)
  qed
qed




lemma children_set_close [simp]: "children (set_close n tok) = children n"
  by (simp add: set_close_def)

lemma children_set_children [simp]: "children (set_children n cs) = Some cs"
  by (simp add: set_children_def)

lemma set_children_twice [simp]: "set_children (set_children n cs) cs' = set_children n cs'"
  by (simp add: set_children_def)

lemma modify_at_node_at:
  "node_at root p = Some n \<Longrightarrow> f n = Inr n' \<Longrightarrow>
     \<exists>root'. modify_at p f root = Inr root' \<and> node_at root' p = Some n'"
proof (induction p arbitrary: root)
  case Nil
  then show ?case by simp
next
  case (Cons i p)
  from Cons.prems(1) obtain cs where cs: "children root = Some cs" "i < length cs"
    and at: "node_at (cs ! i) p = Some n"
    by (auto split: option.splits if_splits)
  from Cons.IH[OF at Cons.prems(2)] obtain c where
    c: "modify_at p f (cs ! i) = Inr c" "node_at c p = Some n'" by blast
  with cs show ?case by simp
qed

lemma push_child_node_at:
  assumes "node_at root p = Some n" and "children n = Some cs"
  shows "\<exists>root'. push_child p c root = Inr root'
           \<and> node_at root' p = Some (set_children n (cs @ [c]))"
  unfolding push_child_def
  by (rule modify_at_node_at[OF assms(1)]) (simp add: assms(2))

lemma softbreaks_push:
  assumes "\<forall>tok \<in> set run. softbreak tok"
    and "node_at root p = Some n" and "children n = Some cs"
  shows "\<exists>root'. toTree_loop run (Some p) root = Inr (Some p, root')
           \<and> node_at root' p
               = Some (set_children n (cs @ replicate (length run) (text_node [newline])))"
  using assms
proof (induction run arbitrary: root n cs)
  case Nil
  then show ?case by (cases n) (simp add: set_children_def)
next
  case (Cons tok run)
  from push_child_node_at[OF Cons.prems(2,3), of "text_node [newline]"] obtain root1 where
    r1: "push_child p (text_node [newline]) root = Inr root1"
    and n1: "node_at root1 p = Some (set_children n (cs @ [text_node [newline]]))" by blast
  from Cons.prems(1) r1 have step: "toTree_token tok (Some p) root = Inr (Some p, root1)"
    by (simp add: toTree_token.simps softbreak_def js_def newline_def)
  from Cons.prems(1) have "\<forall>t \<in> set run. softbreak t" by simp
  from Cons.IH[OF this n1] obtain root' where
    "toTree_loop run (Some p) root1 = Inr (Some p, root')"
    "node_at root' p = Some (set_children n
          ((cs @ [text_node [newline]]) @ replicate (length run) (text_node [newline])))"
    by auto
  with step show ?case by (simp add: replicate_append_same)
qed

lemma walk_newlines:
  "walk d h (replicate k (text_node [newline])) st
     = Inr (st\<lparr>content := content st @ replicate k newline\<rparr>)"
proof (induction k arbitrary: st)
  case 0
  then show ?case by simp
next
  case (Suc k)
  have "walk_node d h (text_node [newline]) st = Inr (st\<lparr>content := content st @ [newline]\<rparr>)"
    by (simp add: walk_node_text text_node_def value_string_def)
  then show ?case using Suc.IH by (simp add: replicate_append_same)
qed


lemma ex_heading_run: "Parser id ex_heading no_handlers = Inr ex_heading_doc"
  by code_simp

lemma ex_heading_walk: "walk id no_handlers [ex_heading_node] empty_parser = Inr ex_heading_doc"
  by code_simp

lemma ex_heading_walk_node: "walk_node id no_handlers ex_heading_node empty_parser = Inr ex_heading_doc"
  by code_simp

lemma no_handlers_overrides: "\<forall>t. \<not> overrides no_handlers nm k t"
  by (simp add: overrides_def no_handlers_def)

lemma ex_heading_final_at:
  "final_at id no_handlers [ex_heading_node] empty_parser [0] = Some ex_heading_final"
  "final_at id no_handlers [ex_heading_node] empty_parser ([0] @ [0]) = Some ex_em_final"
  by code_simp+

lemma ex_list_walk_node: "walk_node id no_handlers ex_list empty_parser = Inr ex_list_doc"
  by code_simp

lemma ex_image_tree: "toTree [ex_image_token] root_node = Inr (set_children root_node [ex_image])"
  by code_simp

lemma ex_image_run: "Parser id [ex_image_token] no_handlers = Inr ex_image_doc"
  by code_simp

lemma ex_image_walk_node: "walk_node id no_handlers ex_image empty_parser = Inr ex_image_doc"
  by code_simp

lemma ex_fence_walk_node: "walk_node id no_handlers ex_fence empty_parser = Inr ex_fence_doc"
  by code_simp

lemma ex_item_walk_node: "walk_node id no_handlers ex_item_empty empty_parser = Inr ex_item_doc"
  by code_simp

lemma walk_node_image_content:
  assumes "name n = js ''image''" and "walk_node d h n st = Inr st'"
  shows "content st' = content st @ [placeholder, placeholder]"
proof -
  from assms(1) have nt: "name n \<noteq> js ''text''" using js_distinct by auto
  from nt assms(2) obtain n' cs mid where
    p: "walk_prepare n = Inr n'" "children n' = Some cs"
    and m: "walk d h cs (convert_open (name n) st) = Inr mid"
    and c: "content st' = content mid @ [placeholder]"
    by (rule walk_node_final)
  from walk_prepare_children[OF p(1)] p(2) assms(1) have "cs = []" by simp
  with m have "mid = convert_open (name n) st" by simp
  with c show ?thesis by (simp add: convert_open_content)
qed

lemma ex_image_break_walk_node:
  "walk_node id no_handlers ex_image_break empty_parser = Inr ex_image_break_doc"
  by code_simp

lemma ex_image_break_run:
  "Parser id [ex_image_break_token] no_handlers = Inr ex_image_break_doc"
  by code_simp

lemma ex_text_walk:
  "walk id no_handlers [Node (js ''text'') None None (Some (js ''a'')) None] empty_parser
     = Inr \<lparr>content = js ''a'', annotations = []\<rparr>"
  by code_simp

section \<open>Claims\<close>

text \<open>
  C1. A node that is not a text node is converted in two phases. On entry \<open>start\<close> is the
  length of the buffer, one placeholder is appended and the open marker
  \<open>{type: "parse-token", attributes: {type: name + "_open"}, start, start + 1}\<close> is pushed.
  The children are walked from that state. Only then the closing placeholder is appended,
  and the close marker over \<open>[end - 1, end)\<close> followed by the final annotation
  \<open>{type: name, attributes, start, end}\<close> are pushed, \<open>end\<close> being the length of the buffer
  after the closing placeholder.
\<close>

theorem node_two_phase_emission:
  assumes "name n \<noteq> js ''text''" and "walk_node d h n st = Inr st'"
  shows "\<exists>cs sub_content sub_annotations attrs.
      (if name n = js ''image'' then cs = [] else children n = Some cs)
    \<and> walk d h cs (convert_open (name n) st) =
        Inr \<lparr>content = content st @ [placeholder] @ sub_content,
             annotations = annotations st
               @ [marker (name n @ js ''_open'') (int (length (content st)))] @ sub_annotations\<rparr>
    \<and> content st' = content st @ [placeholder] @ sub_content @ [placeholder]
    \<and> annotations st' = annotations st
        @ [marker (name n @ js ''_open'') (int (length (content st)))]
        @ sub_annotations
        @ [marker (name n @ js ''_close'') (int (length (content st')) - 1),
           \<lparr>atype = name n, attributes = attrs,
            astart = int (length (content st)), aend = int (length (content st'))\<rparr>]"
proof -
  from assms obtain n' cs mid tok where
    p: "walk_prepare n = Inr n'" "children n' = Some cs"
    and m: "walk d h cs (convert_open (name n) st) = Inr mid"
    and c: "convert_close d h (name n) (Some tok) (int (length (content st))) mid = Inr st'"
    by (rule walk_node_nontext)
  from walk_prepare_children[OF p(1)] p(2)
  have kids: "if name n = js ''image'' then cs = [] else children n = Some cs"
    by (simp split: if_splits)
  from walk_grows(1)[OF m] obtain sc sa where
    g: "content mid = content st @ [placeholder] @ sc"
       "annotations mid = annotations st
          @ [marker (name n @ js ''_open'') (int (length (content st)))] @ sa"
    by (auto simp: convert_open_content convert_open_annotations marker_def)
  then have mid: "mid = \<lparr>content = content st @ [placeholder] @ sc,
      annotations = annotations st
        @ [marker (name n @ js ''_open'') (int (length (content st)))] @ sa\<rparr>"
    by simp
  from convert_close_Some[OF c] obtain attrs where
    c1: "content st' = content mid @ [placeholder]"
    and c2: "annotations st' = annotations mid @
        [\<lparr>atype = js ''parse-token'', attributes = [(js ''type'', AStr (name n @ js ''_close''))],
          astart = int (length (content mid)), aend = int (length (content mid)) + 1\<rparr>,
         \<lparr>atype = name n, attributes = attrs, astart = int (length (content st)),
          aend = int (length (content mid)) + 1\<rparr>]"
    by blast
  have "content st' = content st @ [placeholder] @ sc @ [placeholder]"
    using c1 g(1) by simp
  moreover have "annotations st' = annotations st
        @ [marker (name n @ js ''_open'') (int (length (content st)))]
        @ sa
        @ [marker (name n @ js ''_close'') (int (length (content st')) - 1),
           \<lparr>atype = name n, attributes = attrs,
            astart = int (length (content st)), aend = int (length (content st'))\<rparr>]"
    using c2 g(2) c1 by (simp add: marker_def)
  ultimately show ?thesis using kids m mid by blast
qed

theorem node_two_phase_emission_witness:
  "name ex_heading_node \<noteq> js ''text''
   \<and> walk_node id no_handlers ex_heading_node empty_parser = Inr ex_heading_doc
   \<and> (\<exists>cs sub_content sub_annotations attrs.
      (if name ex_heading_node = js ''image'' then cs = [] else children ex_heading_node = Some cs)
    \<and> walk id no_handlers cs (convert_open (name ex_heading_node) empty_parser) =
        Inr \<lparr>content = content empty_parser @ [placeholder] @ sub_content,
             annotations = annotations empty_parser
               @ [marker (name ex_heading_node @ js ''_open'') (int (length (content empty_parser)))]
               @ sub_annotations\<rparr>
    \<and> content ex_heading_doc = content empty_parser @ [placeholder] @ sub_content @ [placeholder]
    \<and> annotations ex_heading_doc = annotations empty_parser
        @ [marker (name ex_heading_node @ js ''_open'') (int (length (content empty_parser)))]
        @ sub_annotations
        @ [marker (name ex_heading_node @ js ''_close'') (int (length (content ex_heading_doc)) - 1),
           \<lparr>atype = name ex_heading_node, attributes = attrs,
            astart = int (length (content empty_parser)),
            aend = int (length (content ex_heading_doc))\<rparr>])"
proof -
  have n: "name ex_heading_node \<noteq> js ''text''" by code_simp
  from node_two_phase_emission [OF n ex_heading_walk_node] n ex_heading_walk_node
  show ?thesis by blast
qed

text \<open>
  C2. When the node at position \<open>p\<close> is an ancestor of the node at position \<open>p @ q\<close>, their
  final annotations \<open>a\<close> and \<open>b\<close> are both in the collection and satisfy
  \<open>a.start \<le> b.start\<close> and \<open>b.end \<le> a.end\<close>.
\<close>

theorem descendant_intervals_nest:
  assumes "walk d h ns st = Inr st'"
    and "final_at d h ns st p = Some a"
    and "final_at d h ns st (p @ q) = Some b"
    and "q \<noteq> []"
  shows "a \<in> set (annotations st') \<and> b \<in> set (annotations st')
         \<and> astart a \<le> astart b \<and> aend b \<le> aend a"
proof -
  have "astart a \<le> astart b \<and> aend b \<le> aend a"
    using assms
  proof (induction p arbitrary: ns st st')
    case Nil
    then show ?case by simp
  next
    case (Cons i p)
    from Cons.prems(2) have i: "i < length ns" by (simp split: if_splits)
    from Cons.prems(1) i obtain s1 s2 where
      s1: "walk d h (take i ns) st = Inr s1"
      and s2: "walk_node d h (ns ! i) s1 = Inr s2"
      by (rule walk_nth)
    from Cons.prems(2) i s1 have nt: "name (ns ! i) \<noteq> js ''text''"
      by (simp split: if_splits)
    from nt s2 obtain n' cs mid where
      p: "walk_prepare (ns ! i) = Inr n'" "children n' = Some cs" "name n' = name (ns ! i)"
      and m: "walk d h cs (convert_open (name (ns ! i)) s1) = Inr mid"
      and c: "content s2 = content mid @ [placeholder]"
        "astart (last (annotations s2)) = int (length (content s1))"
        "aend (last (annotations s2)) = int (length (content s2))"
      by (rule walk_node_final)
    show ?case
    proof (cases "p = []")
      case True
      with Cons.prems(2) i s1 nt s2 have a: "a = last (annotations s2)" by simp
      from True Cons.prems(3,4) i s1 nt p
      have "final_at d h cs (convert_open (name (ns ! i)) s1) q = Some b" by simp
      from final_at_range[OF this m] a c show ?thesis
        by (auto simp: convert_open_content)
    next
      case False
      with Cons.prems(2) i s1 nt p
      have fa: "final_at d h cs (convert_open (name (ns ! i)) s1) p = Some a" by simp
      from False Cons.prems(3) i s1 nt p
      have fb: "final_at d h cs (convert_open (name (ns ! i)) s1) (p @ q) = Some b" by simp
      from Cons.IH[OF m fa fb Cons.prems(4)] show ?thesis .
    qed
  qed
  with final_at_range[OF assms(2,1)] final_at_range[OF assms(3,1)] show ?thesis by simp
qed

theorem descendant_intervals_nest_witness:
  "walk id no_handlers [ex_heading_node] empty_parser = Inr ex_heading_doc
   \<and> final_at id no_handlers [ex_heading_node] empty_parser [0] = Some ex_heading_final
   \<and> final_at id no_handlers [ex_heading_node] empty_parser ([0] @ [0]) = Some ex_em_final
   \<and> [0::nat] \<noteq> []
   \<and> ex_heading_final \<in> set (annotations ex_heading_doc)
   \<and> ex_em_final \<in> set (annotations ex_heading_doc)
   \<and> astart ex_heading_final \<le> astart ex_em_final \<and> aend ex_em_final \<le> aend ex_heading_final"
proof -
  have q: "[0::nat] \<noteq> []" by simp
  from descendant_intervals_nest [OF ex_heading_walk ex_heading_final_at q]
    ex_heading_walk ex_heading_final_at
  show ?thesis by simp
qed

text \<open>
  C3. Every annotation of the collection that a complete conversion produces, marker or
  final, satisfies \<open>0 \<le> start \<le> end \<le> length content\<close> for the final buffer.
\<close>

theorem conversion_boundaries_well_formed:
  assumes "Parser d tokens h = Inr p" and "a \<in> set (annotations p)"
  shows "0 \<le> astart a \<and> astart a \<le> aend a \<and> aend a \<le> int (length (content p))"
proof -
  from assms(1) obtain ns where "walk d h ns \<lparr>content = [], annotations = []\<rparr> = Inr p"
    by (auto simp: Parser_def split: sum.splits option.splits)
  moreover have "bounded \<lparr>content = [], annotations = []\<rparr>" by (simp add: bounded_def)
  ultimately have "bounded p" by (rule walk_bounded(1))
  with assms(2) show ?thesis by (simp add: bounded_def)
qed

theorem conversion_boundaries_well_formed_witness:
  "Parser id ex_heading no_handlers = Inr ex_heading_doc
   \<and> ex_em_final \<in> set (annotations ex_heading_doc)
   \<and> 0 \<le> astart ex_em_final \<and> astart ex_em_final \<le> aend ex_em_final
   \<and> aend ex_em_final \<le> int (length (content ex_heading_doc))"
proof -
  have m: "ex_em_final \<in> set (annotations ex_heading_doc)"
    by (simp add: ex_heading_doc_def)
  from conversion_boundaries_well_formed [OF ex_heading_run m] ex_heading_run m
  show ?thesis by simp
qed




text \<open>
  C5 (amended). Soft line breaks are not merged: each softbreak token pushes its own text
  node holding one newline onto the current node, so a run of consecutive softbreak tokens
  appends as many such text nodes to the children of the current node as it has tokens.
  When \<open>walk\<close> visits that list of children, these text nodes append as many newline units
  to the content, right after what the preceding siblings produced; a stream that is such
  a run alone converts to a content of that many newlines. The children of an image node
  are discarded before \<open>walk\<close> descends, so soft line breaks among them add no newline to
  the content.
\<close>

theorem softbreaks_not_merged:
  assumes "\<forall>tok \<in> set run. softbreak tok"
    and "node_at root p = Some n" and "children n = Some cs"
  shows "(\<exists>root'. toTree_loop run (Some p) root = Inr (Some p, root')
            \<and> node_at root' p
                = Some (Node (name n) (nopen n) (nclose n) (nvalue n)
                    (Some (cs @ replicate (length run)
                                   (Node (js ''text'') None None (Some [0x0A]) None)))))
       \<and> (walk d h before st = Inr s1 \<longrightarrow>
            walk d h (before @ replicate (length run)
                                  (Node (js ''text'') None None (Some [0x0A]) None)) st
              = Inr (s1\<lparr>content := content s1 @ replicate (length run) 0x0A\<rparr>))
       \<and> Parser d run h = Inr \<lparr>content = replicate (length run) 0x0A, annotations = []\<rparr>
       \<and> (name m = js ''image'' \<and> walk_node d h m st0 = Inr st1 \<longrightarrow>
            content st1 = content st0 @ [placeholder, placeholder])"
proof -
  have nl: "text_node [0x0A] = Node (js ''text'') None None (Some [0x0A]) None"
    by (simp add: text_node_def)
  from softbreaks_push[OF assms]
  have one: "\<exists>root'. toTree_loop run (Some p) root = Inr (Some p, root')
            \<and> node_at root' p
                = Some (Node (name n) (nopen n) (nclose n) (nvalue n)
                    (Some (cs @ replicate (length run)
                                   (Node (js ''text'') None None (Some [0x0A]) None))))"
    by (simp add: set_children_def newline_def nl)
  have two: "walk d h (before @ replicate (length run)
                                  (Node (js ''text'') None None (Some [0x0A]) None)) st
              = Inr (s1\<lparr>content := content s1 @ replicate (length run) 0x0A\<rparr>)"
    if "walk d h before st = Inr s1"
    using that walk_newlines[of d h "length run" s1]
    by (simp add: walk_append newline_def nl)
  from softbreaks_push[OF assms(1), of root_node "[]" root_node "[]"] obtain root' where
    "toTree_loop run (Some []) root_node = Inr (Some [], root')"
    "root' = set_children root_node (replicate (length run) (text_node [newline]))"
    by (auto simp: root_node_def)
  then have "Parser d run h =
      walk d h (replicate (length run) (text_node [newline])) \<lparr>content = [], annotations = []\<rparr>"
    by (simp add: Parser_def toTree_def)
  with walk_newlines[of d h "length run" "\<lparr>content = [], annotations = []\<rparr>"]
  have three: "Parser d run h
      = Inr \<lparr>content = replicate (length run) 0x0A, annotations = []\<rparr>"
    by (simp add: newline_def)
  have four: "content st1 = content st0 @ [placeholder, placeholder]"
    if "name m = js ''image''" "walk_node d h m st0 = Inr st1"
    using that by (rule walk_node_image_content)
  from one two three four show ?thesis by blast
qed

theorem softbreaks_not_merged_witness:
  "softbreak ex_softbreak
   \<and> node_at (Node [] None None None (Some [ex_image_open])) [0] = Some ex_image_open
   \<and> children ex_image_open = Some [Node (js ''text'') None None (Some (js ''a'')) None]
   \<and> toTree_loop [ex_softbreak, ex_softbreak] (Some [0])
         (Node [] None None None (Some [ex_image_open]))
       = Inr (Some [0], Node [] None None None
           (Some [Node (js ''image'') (Some ex_image_break_token) None None
              (Some [Node (js ''text'') None None (Some (js ''a'')) None,
                     Node (js ''text'') None None (Some [0x0A]) None,
                     Node (js ''text'') None None (Some [0x0A]) None])]))
   \<and> (\<exists>root'. toTree_loop [ex_softbreak, ex_softbreak] (Some [0])
                  (Node [] None None None (Some [ex_image_open])) = Inr (Some [0], root')
          \<and> node_at root' [0]
              = Some (Node (name ex_image_open) (nopen ex_image_open) (nclose ex_image_open)
                  (nvalue ex_image_open)
                  (Some ([Node (js ''text'') None None (Some (js ''a'')) None]
                     @ replicate (length [ex_softbreak, ex_softbreak])
                         (Node (js ''text'') None None (Some [0x0A]) None)))))
   \<and> walk id no_handlers [Node (js ''text'') None None (Some (js ''a'')) None] empty_parser
       = Inr \<lparr>content = js ''a'', annotations = []\<rparr>
   \<and> walk id no_handlers ([Node (js ''text'') None None (Some (js ''a'')) None]
          @ replicate (length [ex_softbreak, ex_softbreak])
              (Node (js ''text'') None None (Some [0x0A]) None)) empty_parser
       = Inr (\<lparr>content = js ''a'', annotations = []\<rparr>
               \<lparr>content := content \<lparr>content = js ''a'', annotations = []\<rparr>
                  @ replicate (length [ex_softbreak, ex_softbreak]) 0x0A\<rparr>)
   \<and> Parser id [ex_softbreak, ex_softbreak] no_handlers
       = Inr \<lparr>content = replicate (length [ex_softbreak, ex_softbreak]) 0x0A, annotations = []\<rparr>
   \<and> name ex_image_break = js ''image''
   \<and> walk_node id no_handlers ex_image_break empty_parser = Inr ex_image_break_doc
   \<and> content ex_image_break_doc = content empty_parser @ [placeholder, placeholder]
   \<and> Parser id [ex_image_break_token] no_handlers = Inr ex_image_break_doc"
proof -
  have s: "\<forall>tok \<in> set [ex_softbreak, ex_softbreak]. softbreak tok"
    by (simp add: softbreak_def ex_softbreak_def ex_tok_def)
  have b: "softbreak ex_softbreak" using s by simp
  have n: "node_at (Node [] None None None (Some [ex_image_open])) [0] = Some ex_image_open"
    by simp
  have c: "children ex_image_open = Some [Node (js ''text'') None None (Some (js ''a'')) None]"
    by (simp add: ex_image_open_def)
  have e: "toTree_loop [ex_softbreak, ex_softbreak] (Some [0])
         (Node [] None None None (Some [ex_image_open]))
       = Inr (Some [0], Node [] None None None
           (Some [Node (js ''image'') (Some ex_image_break_token) None None
              (Some [Node (js ''text'') None None (Some (js ''a'')) None,
                     Node (js ''text'') None None (Some [0x0A]) None,
                     Node (js ''text'') None None (Some [0x0A]) None])]))"
    by code_simp
  have i: "name ex_image_break = js ''image''" by (simp add: ex_image_break_def)
  from softbreaks_not_merged [OF s n c, of id no_handlers
      "[Node (js ''text'') None None (Some (js ''a'')) None]" empty_parser
      "\<lparr>content = js ''a'', annotations = []\<rparr>" ex_image_break empty_parser ex_image_break_doc]
    b n c e ex_text_walk i ex_image_break_walk_node ex_image_break_run
  show ?thesis by blast
qed

text \<open>Two adjacent soft line breaks give a content of two newlines.\<close>

theorem softbreaks_counterexample:
  "Parser id [ex_softbreak, ex_softbreak] no_handlers
     = Inr \<lparr>content = [newline, newline], annotations = []\<rparr>"
  by code_simp

text \<open>
  C6. For a list node (\<open>bullet_list\<close> or \<open>ordered_list\<close>) the \<open>tight\<close> attribute of the final
  annotation is \<open>true\<close> if and only if some item child has a paragraph child whose open
  token is flagged \<open>hidden\<close>, whenever no custom handler assigns \<open>tight\<close>.
\<close>

theorem list_tightness:
  assumes "name n = js ''bullet_list'' \<or> name n = js ''ordered_list''"
    and "children n = Some items"
    and "walk_node d h n st = Inr st'"
    and "\<forall>t. \<not> overrides h (name n) (js ''tight'') t"
  shows "attribute (last (annotations st')) (js ''tight'')
         = Some (ABool (\<exists>item \<in> set items. has_hidden_paragraph item))"
proof -
  from assms(1) have nt: "name n \<noteq> js ''text''" and ni: "name n \<noteq> js ''image''"
    and nh: "name n \<noteq> js ''heading''" and nf: "name n \<noteq> js ''fence''"
    using js_distinct by auto
  from nt assms(3) obtain n' cs mid tok where
    p: "walk_prepare n = Inr n'" and o: "nopen n' = Some tok"
    and c: "convert_close d h (name n) (Some tok) (int (length (content st))) mid = Inr st'"
    by (rule walk_node_nontext)
  from p ni assms(1) have wl: "walk_list n = Inr n'"
    by (auto simp: walk_prepare_def)
  with assms(2) obtain b tok0 where b: "isTight items = Inr b"
    and n': "n' = Node (name n) (Some (push_attr tok0 (js ''tight'') (ABool b)))
                    (nclose n) (nvalue n) (children n)"
    by (auto simp: walk_list_def split: sum.splits option.splits)
  from n' o have tok: "tok = push_attr tok0 (js ''tight'') (ABool b)" by simp
  from convert_close_attribute[OF c assms(4)] nh nf
  have "attribute (last (annotations st')) (js ''tight'') = Some (ABool b)"
    by (simp add: tok getAttributes_push_attr)
  with isTight_iff[OF b] show ?thesis by simp
qed

theorem list_tightness_witness:
  "(name ex_list = js ''bullet_list'' \<or> name ex_list = js ''ordered_list'')
   \<and> children ex_list = Some [ex_item_empty, ex_item_tight]
   \<and> walk_node id no_handlers ex_list empty_parser = Inr ex_list_doc
   \<and> (\<forall>t. \<not> overrides no_handlers (name ex_list) (js ''tight'') t)
   \<and> attribute (last (annotations ex_list_doc)) (js ''tight'')
       = Some (ABool (\<exists>item \<in> set [ex_item_empty, ex_item_tight]. has_hidden_paragraph item))
   \<and> has_hidden_paragraph ex_item_tight"
proof -
  have n: "name ex_list = js ''bullet_list'' \<or> name ex_list = js ''ordered_list''"
    by (simp add: ex_list_def)
  have c: "children ex_list = Some [ex_item_empty, ex_item_tight]"
    by (simp add: ex_list_def)
  have h: "has_hidden_paragraph ex_item_tight"
    by (simp add: has_hidden_paragraph_def hidden_paragraph_def ex_item_tight_def
          ex_paragraph_hidden_def)
  from list_tightness [OF n c ex_list_walk_node no_handlers_overrides]
    n c ex_list_walk_node no_handlers_overrides h
  show ?thesis by blast
qed

text \<open>
  C7. For an image node the \<open>alt\<close> attribute of the final annotation is the concatenation,
  in document order, of the literal text of its subtree (text nodes being leaves, and no
  custom handler assigning \<open>alt\<close>). Its children are discarded: the node adds its two
  placeholders to the buffer and its two markers and final annotation to the collection,
  and nothing else.
\<close>

theorem image_alt_text:
  assumes "name n = js ''image''"
    and "children n = Some cs"
    and "walk_node d h n st = Inr st'"
    and "\<forall>t. \<not> overrides h (name n) (js ''alt'') t"
    and "\<forall>m \<in> set (all_nodes cs). name m = js ''text'' \<longrightarrow> children m = None"
  shows "attribute (last (annotations st')) (js ''alt'') = Some (AStr (literal_text cs))
    \<and> content st' = content st @ [placeholder, placeholder]
    \<and> (\<exists>attrs. annotations st' = annotations st @
          [marker (js ''image_open'') (int (length (content st))),
           marker (js ''image_close'') (int (length (content st)) + 1),
           \<lparr>atype = js ''image'', attributes = attrs,
            astart = int (length (content st)), aend = int (length (content st)) + 2\<rparr>])"
proof -
  from assms(1) have nt: "name n \<noteq> js ''text''" and nb: "name n \<noteq> js ''bullet_list''"
    and no: "name n \<noteq> js ''ordered_list''"
    and nh: "name n \<noteq> js ''heading''" and nf: "name n \<noteq> js ''fence''"
    using js_distinct by auto
  from nt assms(3) obtain n' cs' mid tok where
    p: "walk_prepare n = Inr n'" and k: "children n' = Some cs'" and o: "nopen n' = Some tok"
    and m: "walk d h cs' (convert_open (name n) st) = Inr mid"
    and c: "convert_close d h (name n) (Some tok) (int (length (content st))) mid = Inr st'"
    by (rule walk_node_nontext)
  from walk_prepare_children[OF p] k assms(1) have "cs' = []" by simp
  with m have mid: "mid = convert_open (name n) st" by simp
  from p assms(1) nb no have "walk_image n = Inr n'"
    by (auto simp: walk_prepare_def walk_image_def split: sum.splits option.splits)
  with assms(2) o obtain tok0 where
    tok: "tok = push_attr tok0 (js ''alt'') (AStr (join_values (getText_nodes cs)))"
    by (auto simp: walk_image_def getText_def split: option.splits)
  have "join_values (getText_nodes cs) = literal_text cs"
    using getText_nodes_all[OF assms(5)] by (simp add: join_values_def literal_text_def)
  with convert_close_attribute[OF c assms(4)] nh nf
  have alt: "attribute (last (annotations st')) (js ''alt'') = Some (AStr (literal_text cs))"
    by (simp add: tok getAttributes_push_attr)
  from convert_close_Some[OF c] assms(1) mid
  have "content st' = content st @ [placeholder, placeholder]"
    "\<exists>attrs. annotations st' = annotations st @
          [marker (js ''image_open'') (int (length (content st))),
           marker (js ''image_close'') (int (length (content st)) + 1),
           \<lparr>atype = js ''image'', attributes = attrs,
            astart = int (length (content st)), aend = int (length (content st)) + 2\<rparr>]"
    by (auto simp: convert_open_content convert_open_annotations marker_def js_def)
  with alt show ?thesis by simp
qed

theorem image_alt_text_witness:
  "name ex_image = js ''image''
   \<and> children ex_image = Some ex_image_children
   \<and> walk_node id no_handlers ex_image empty_parser = Inr ex_image_doc
   \<and> (\<forall>t. \<not> overrides no_handlers (name ex_image) (js ''alt'') t)
   \<and> attribute (last (annotations ex_image_doc)) (js ''alt'')
       = Some (AStr (literal_text ex_image_children))
   \<and> literal_text ex_image_children = js ''ab''
   \<and> content ex_image_doc = content empty_parser @ [placeholder, placeholder]
   \<and> (\<exists>attrs. annotations ex_image_doc = annotations empty_parser @
          [marker (js ''image_open'') (int (length (content empty_parser))),
           marker (js ''image_close'') (int (length (content empty_parser)) + 1),
           \<lparr>atype = js ''image'', attributes = attrs,
            astart = int (length (content empty_parser)),
            aend = int (length (content empty_parser)) + 2\<rparr>])"
proof -
  have n: "name ex_image = js ''image''" by (simp add: ex_image_def)
  have c: "children ex_image = Some ex_image_children" by (simp add: ex_image_def)
  have l: "\<forall>m \<in> set (all_nodes ex_image_children). name m = js ''text'' \<longrightarrow> children m = None"
    by (simp add: ex_image_children_def text_node_def js_def)
  have t: "literal_text ex_image_children = js ''ab''" by code_simp
  from image_alt_text [OF n c ex_image_walk_node no_handlers_overrides l]
    n c ex_image_walk_node no_handlers_overrides t
  show ?thesis by blast
qed

text \<open>
  C8. The final annotation of a heading node has \<open>level\<close> equal to the decimal digit that
  is the second character of the open token's tag, and the final annotation of a fence
  node has \<open>info\<close> equal to the decoded, trimmed info string of the open token (no custom
  handler assigning the key).
\<close>

theorem heading_level_and_fence_info:
  assumes "walk_node d h n st = Inr st'" and "nopen n = Some tok"
  shows "(name n = js ''heading'' \<and> (\<forall>t. \<not> overrides h (name n) (js ''level'') t)
            \<and> char_at (tag tok) 1 = Some c \<and> 0x30 \<le> c \<and> c \<le> 0x39
          \<longrightarrow> attribute (last (annotations st')) (js ''level'') = Some (ANum (uint c - 0x30)))
       \<and> (name n = js ''fence'' \<and> (\<forall>t. \<not> overrides h (name n) (js ''info'') t)
          \<longrightarrow> attribute (last (annotations st')) (js ''info'')
                = Some (AStr (d (trim (info tok)))))"
proof -
  have unchanged: "\<exists>mid. convert_close d h (name n) (Some tok) (int (length (content st))) mid = Inr st'"
    if nm: "name n = js ''heading'' \<or> name n = js ''fence''"
  proof -
    from nm have nt: "name n \<noteq> js ''text''" using js_distinct by auto
    from nt assms(1) obtain n' cs mid tok' where
      p: "walk_prepare n = Inr n'" and o: "nopen n' = Some tok'"
      and c: "convert_close d h (name n) (Some tok') (int (length (content st))) mid = Inr st'"
      by (rule walk_node_nontext)
    from nm have "walk_prepare n = Inr n"
      using js_distinct by (auto simp: walk_prepare_def)
    with p o assms(2) have "tok' = tok" by simp
    with c show ?thesis by blast
  qed
  show ?thesis
  proof (intro conjI impI)
    assume a: "name n = js ''heading'' \<and> (\<forall>t. \<not> overrides h (name n) (js ''level'') t)
            \<and> char_at (tag tok) 1 = Some c \<and> 0x30 \<le> c \<and> c \<le> 0x39"
    then have ov: "\<forall>t. \<not> overrides h (name n) (js ''level'') t" by blast
    from a obtain mid where
      "convert_close d h (name n) (Some tok) (int (length (content st))) mid = Inr st'"
      using unchanged by blast
    from convert_close_attribute[OF this ov] a
    show "attribute (last (annotations st')) (js ''level'') = Some (ANum (uint c - 0x30))"
      by (simp add: js_distinct parseInt_unit_def)
  next
    assume a: "name n = js ''fence'' \<and> (\<forall>t. \<not> overrides h (name n) (js ''info'') t)"
    then have ov: "\<forall>t. \<not> overrides h (name n) (js ''info'') t" by blast
    from a obtain mid where
      "convert_close d h (name n) (Some tok) (int (length (content st))) mid = Inr st'"
      using unchanged by blast
    from convert_close_attribute[OF this ov] a
    show "attribute (last (annotations st')) (js ''info'') = Some (AStr (d (trim (info tok))))"
      by simp
  qed
qed

theorem heading_level_and_fence_info_witness:
  "walk_node id no_handlers ex_heading_node empty_parser = Inr ex_heading_doc
   \<and> nopen ex_heading_node = Some (ex_tok ''heading_open'' ''h2'' 1)
   \<and> name ex_heading_node = js ''heading''
   \<and> (\<forall>t. \<not> overrides no_handlers (name ex_heading_node) (js ''level'') t)
   \<and> char_at (tag (ex_tok ''heading_open'' ''h2'' 1)) 1 = Some 0x32
   \<and> attribute (last (annotations ex_heading_doc)) (js ''level'') = Some (ANum 2)
   \<and> walk_node id no_handlers ex_fence empty_parser = Inr ex_fence_doc
   \<and> nopen ex_fence = Some ex_fence_token
   \<and> name ex_fence = js ''fence''
   \<and> (\<forall>t. \<not> overrides no_handlers (name ex_fence) (js ''info'') t)
   \<and> attribute (last (annotations ex_fence_doc)) (js ''info'')
       = Some (AStr (id (trim (info ex_fence_token))))
   \<and> trim (info ex_fence_token) = js ''js''"
proof -
  have o1: "nopen ex_heading_node = Some (ex_tok ''heading_open'' ''h2'' 1)"
    by (simp add: ex_heading_node_def)
  have n1: "name ex_heading_node = js ''heading''" by (simp add: ex_heading_node_def)
  have c1: "char_at (tag (ex_tok ''heading_open'' ''h2'' 1)) 1 = Some 0x32" by code_simp
  have d1: "(0x30::jschar) \<le> 0x32 \<and> (0x32::jschar) \<le> 0x39" by simp
  have v1: "uint (0x32::jschar) - 0x30 = 2" by simp
  have o2: "nopen ex_fence = Some ex_fence_token" by (simp add: ex_fence_def)
  have n2: "name ex_fence = js ''fence''" by (simp add: ex_fence_def)
  have t2: "trim (info ex_fence_token) = js ''js''" by code_simp
  from heading_level_and_fence_info [OF ex_heading_walk_node o1, of "0x32"]
    n1 no_handlers_overrides c1 d1 v1
  have "attribute (last (annotations ex_heading_doc)) (js ''level'') = Some (ANum 2)"
    by simp
  moreover from heading_level_and_fence_info [OF ex_fence_walk_node o2] n2 no_handlers_overrides
  have "attribute (last (annotations ex_fence_doc)) (js ''info'')
       = Some (AStr (id (trim (info ex_fence_token))))"
    by blast
  ultimately show ?thesis
    using ex_heading_walk_node o1 n1 c1 ex_fence_walk_node o2 n2 t2 no_handlers_overrides
    by blast
qed

text \<open>
  C9. An atomic leaf token becomes a node, pushed onto the current node, whose open and
  close payload are the token itself and which has exactly one text child holding the
  token's content; for \<open>code_inline\<close> the content gets a space in front of a leading
  backtick and a space after a trailing backtick.
\<close>

theorem atomic_leaf_node:
  assumes "atomic_leaf tok"
    and "node_at root p = Some parent" and "children parent = Some siblings"
  shows "\<exists>root'. toTree_token tok (Some p) root = Inr (Some p, root')
     \<and> node_at root' p =
         Some (Node (name parent) (nopen parent) (nclose parent) (nvalue parent)
           (Some (siblings @
             [Node (ttype tok) (Some tok) (Some tok) None
                (Some [Node (js ''text'') None None
                         (Some (if ttype tok = js ''code_inline'' then padded (tcontent tok)
                                else tcontent tok))
                         None])])))"
proof -
  have pad: "pad_code c = padded c" for c
    by (cases c) (auto simp: pad_code_def padded_def js_def Let_def)
  let ?leaf = "Node (ttype tok) (Some tok) (Some tok) None (Some [text_node (leaf_text tok)])"
  from push_child_node_at[OF assms(2,3), of ?leaf] obtain root' where
    r: "push_child p ?leaf root = Inr root'"
    and n: "node_at root' p = Some (set_children parent (siblings @ [?leaf]))" by blast
  from assms(1) r have "toTree_token tok (Some p) root = Inr (Some p, root')"
    by (auto simp: toTree_token.simps atomic_leaf_def)
  with n show ?thesis
    by (auto simp: leaf_text_def pad set_children_def text_node_def)
qed

theorem atomic_leaf_node_witness:
  "atomic_leaf ex_code
   \<and> node_at ex_paragraph_tree [0]
       = Some (Node (js ''paragraph'') (Some (ex_tok ''paragraph_open'' ''p'' 1))
                (Some (ex_tok ''paragraph_open'' ''p'' 1)) None
                (Some [Node (js ''text'') None None (Some (js ''a'')) None]))
   \<and> toTree_token ex_code (Some [0]) ex_paragraph_tree
       = Inr (Some [0], Node [] None None None
           (Some [Node (js ''paragraph'') (Some (ex_tok ''paragraph_open'' ''p'' 1))
                (Some (ex_tok ''paragraph_open'' ''p'' 1)) None
                (Some [Node (js ''text'') None None (Some (js ''a'')) None,
                       Node (js ''code_inline'') (Some ex_code) (Some ex_code) None
                         (Some [Node (js ''text'') None None (Some (js '' `x` '')) None])])]))
   \<and> (\<exists>root'. toTree_token ex_code (Some [0]) ex_paragraph_tree = Inr (Some [0], root')
     \<and> node_at root' [0] =
         Some (Node (js ''paragraph'') (Some (ex_tok ''paragraph_open'' ''p'' 1))
                (Some (ex_tok ''paragraph_open'' ''p'' 1)) None
           (Some ([Node (js ''text'') None None (Some (js ''a'')) None] @
             [Node (ttype ex_code) (Some ex_code) (Some ex_code) None
                (Some [Node (js ''text'') None None
                         (Some (if ttype ex_code = js ''code_inline'' then padded (tcontent ex_code)
                                else tcontent ex_code))
                         None])]))))
   \<and> ttype ex_code = js ''code_inline''
   \<and> padded (tcontent ex_code) = js '' `x` ''"
proof -
  have a: "atomic_leaf ex_code" by code_simp
  have n: "node_at ex_paragraph_tree [0]
       = Some (Node (js ''paragraph'') (Some (ex_tok ''paragraph_open'' ''p'' 1))
                (Some (ex_tok ''paragraph_open'' ''p'' 1)) None
                (Some [Node (js ''text'') None None (Some (js ''a'')) None]))"
    by (simp add: ex_paragraph_tree_def)
  have c: "children (Node (js ''paragraph'') (Some (ex_tok ''paragraph_open'' ''p'' 1))
                (Some (ex_tok ''paragraph_open'' ''p'' 1)) None
                (Some [Node (js ''text'') None None (Some (js ''a'')) None]))
            = Some [Node (js ''text'') None None (Some (js ''a'')) None]" by simp
  have e: "toTree_token ex_code (Some [0]) ex_paragraph_tree
       = Inr (Some [0], Node [] None None None
           (Some [Node (js ''paragraph'') (Some (ex_tok ''paragraph_open'' ''p'' 1))
                (Some (ex_tok ''paragraph_open'' ''p'' 1)) None
                (Some [Node (js ''text'') None None (Some (js ''a'')) None,
                       Node (js ''code_inline'') (Some ex_code) (Some ex_code) None
                         (Some [Node (js ''text'') None None (Some (js '' `x` '')) None])])]))"
    by code_simp
  have t: "ttype ex_code = js ''code_inline''" by (simp add: ex_code_def)
  have p: "padded (tcontent ex_code) = js '' `x` ''" by code_simp
  from atomic_leaf_node [OF a n c] a n e t p
  show ?thesis by simp
qed

text \<open>
  C10 (amended). The placeholder is the code unit U+FFFC and stays in the content. The
  length of the content grows by the total length of the text values of the text nodes
  that \<open>walk\<close> visits plus twice the number of the other nodes it visits; the descendants
  of an image node are not visited and add nothing. A node that is not a text node and has
  no children adds exactly its two placeholders, and its final annotation is
  \<open>[start, start + 2)\<close>.
\<close>

theorem placeholders_in_content:
  "placeholder = 0xFFFC
   \<and> (walk d h ns st = Inr st' \<longrightarrow>
        length (content st') =
          length (content st) + text_units (visited ns) + 2 * nontext_count (visited ns))
   \<and> (name n \<noteq> js ''text'' \<and> children n = Some [] \<and> walk_node d h n st0 = Inr st1 \<longrightarrow>
        content st1 = content st0 @ [placeholder, placeholder]
        \<and> astart (last (annotations st1)) = int (length (content st0))
        \<and> aend (last (annotations st1)) = int (length (content st0)) + 2)"
proof -
  have one: "placeholder = 0xFFFC" by (simp add: placeholder_def)
  have two: "length (content st') =
      length (content st) + text_units (visited ns) + 2 * nontext_count (visited ns)"
    if "walk d h ns st = Inr st'"
    using that by (rule walk_content_length(1))
  have three: "content st1 = content st0 @ [placeholder, placeholder]
        \<and> astart (last (annotations st1)) = int (length (content st0))
        \<and> aend (last (annotations st1)) = int (length (content st0)) + 2"
    if nt: "name n \<noteq> js ''text''" and k: "children n = Some []"
      and w: "walk_node d h n st0 = Inr st1"
  proof -
    from nt w obtain n' cs mid where
      p: "walk_prepare n = Inr n'" "children n' = Some cs"
      and m: "walk d h cs (convert_open (name n) st0) = Inr mid"
      and c: "content st1 = content mid @ [placeholder]"
        "astart (last (annotations st1)) = int (length (content st0))"
        "aend (last (annotations st1)) = int (length (content st1))"
      by (rule walk_node_final)
    from walk_prepare_children[OF p(1)] p(2) k have "cs = []" by (simp split: if_splits)
    with m have "mid = convert_open (name n) st0" by simp
    with c have "content st1 = content st0 @ [placeholder, placeholder]"
      by (simp add: convert_open_content)
    with c show ?thesis by simp
  qed
  from one two three show ?thesis by blast
qed

theorem placeholders_in_content_witness:
  "placeholder = 0xFFFC
   \<and> walk id no_handlers [ex_heading_node] empty_parser = Inr ex_heading_doc
   \<and> length (content ex_heading_doc) =
        length (content empty_parser) + text_units (visited [ex_heading_node])
        + 2 * nontext_count (visited [ex_heading_node])
   \<and> text_units (visited [ex_heading_node]) = 1
   \<and> nontext_count (visited [ex_heading_node]) = 2
   \<and> name ex_item_empty \<noteq> js ''text'' \<and> children ex_item_empty = Some []
   \<and> walk_node id no_handlers ex_item_empty empty_parser = Inr ex_item_doc
   \<and> content ex_item_doc = content empty_parser @ [placeholder, placeholder]
   \<and> astart (last (annotations ex_item_doc)) = int (length (content empty_parser))
   \<and> aend (last (annotations ex_item_doc)) = int (length (content empty_parser)) + 2"
proof -
  have n: "name ex_item_empty \<noteq> js ''text''" by code_simp
  have c: "children ex_item_empty = Some []" by (simp add: ex_item_empty_def)
  have t: "text_units (visited [ex_heading_node]) = 1" by code_simp
  have k: "nontext_count (visited [ex_heading_node]) = 2" by code_simp
  from placeholders_in_content [of id no_handlers "[ex_heading_node]" empty_parser ex_heading_doc
      ex_item_empty empty_parser ex_item_doc]
    ex_heading_walk n c ex_item_walk_node t k
  show ?thesis by blast
qed

text \<open>
  Counted over all nodes of its tree, the image has two text units and two nodes that are
  not text nodes; its content has length two.
\<close>

theorem content_length_counterexample:
  "toTree [ex_image_token] root_node = Inr (set_children root_node [ex_image])
   \<and> Parser id [ex_image_token] no_handlers = Inr ex_image_doc
   \<and> length (content ex_image_doc) = 2
   \<and> text_units (all_nodes [ex_image]) + 2 * nontext_count (all_nodes [ex_image]) = 6"
proof -
  have "length (content ex_image_doc) = 2" by (simp add: ex_image_doc_def)
  moreover have "text_units (all_nodes [ex_image]) + 2 * nontext_count (all_nodes [ex_image]) = 6"
    by code_simp
  ultimately show ?thesis using ex_image_tree ex_image_run by simp
qed

end
